theory Spec2Isabelle
  imports Main "HOL-Library.Word"
begin

section \<open>Plan validation rules (package analyzer)\<close>

text \<open>
  The rules of \<^verbatim>\<open>validation_rules.go\<close> inspect one plan node each and return an
  error or nil. They read the node and its expressions only through interface methods
  and type switches, so the embedding keeps, for every value, exactly what the rules
  can observe. The tracing span each rule opens and closes changes no result and is
  left out; an \<^verbatim>\<open>error\<close> result is an \<open>option\<close>, \<open>None\<close> being nil.
\<close>

subsection \<open>Types, expressions and plan nodes\<close>

text \<open>
  A \<^verbatim>\<open>sql.Type\<close> is consulted through \<^verbatim>\<open>sql.IsTuple\<close> and
  \<^verbatim>\<open>sql.NumColumns\<close> alone (both live in package \<^verbatim>\<open>sql\<close>, outside these
  sources), so a type is the pair of answers these two functions give for it.
\<close>

record sqlType =
  IsTuple :: bool
  NumColumns :: int

text \<open>
  A \<^verbatim>\<open>sql.Expression\<close> is an interface value. The rules distinguish three dynamic
  shapes: a value implementing \<^verbatim>\<open>sql.Aggregation\<close>, an \<^verbatim>\<open>*expression.Alias\<close>
  with its \<^verbatim>\<open>Child\<close>, and everything else. \<open>String\<close> and \<open>Type\<close> hold what the
  methods \<^verbatim>\<open>String()\<close> and \<^verbatim>\<open>Type()\<close> return.
\<close>

datatype expr =
    Aggregation (String: string) (Type: sqlType)
  | Alias expr (String: string) (Type: sqlType)
  | OtherExpr (String: string) (Type: sqlType)

text \<open>The type assertion \<^verbatim>\<open>expr.(sql.Aggregation)\<close>.\<close>

fun isAggregation :: "expr \<Rightarrow> bool" where
  "isAggregation (Aggregation s ty) = True"
| "isAggregation (Alias c s ty) = False"
| "isAggregation (OtherExpr s ty) = False"

text \<open>A \<^verbatim>\<open>plan.SortField\<close>; the rules read its \<^verbatim>\<open>Column\<close>.\<close>

datatype sortOrder = Ascending | Descending

record sortField =
  Column :: expr
  Order :: sortOrder

text \<open>A \<^verbatim>\<open>sql.Column\<close> of a schema.\<close>

record column =
  colName :: string
  colType :: sqlType
  Nullable :: bool
  Source :: string

type_synonym schema = "column list"

text \<open>
  A \<^verbatim>\<open>sql.Node\<close> is an interface value too. The constructors are the dynamic types
  the rules switch on; \<open>Table\<close> stands for any node type other than
  \<^verbatim>\<open>*plan.TableAlias\<close> that implements \<^verbatim>\<open>sql.Table\<close>, \<open>OtherNode\<close> for any
  remaining node type. The first field of every constructor is what \<^verbatim>\<open>Resolved()\<close>
  returns. \<open>GroupBy\<close> holds \<^verbatim>\<open>Aggregate\<close> and then \<^verbatim>\<open>Grouping\<close>;
  \<open>TableAlias\<close> holds its \<^verbatim>\<open>Child\<close> and what its own \<^verbatim>\<open>Name()\<close> and
  \<^verbatim>\<open>Schema()\<close> return; \<open>Table\<close> holds \<^verbatim>\<open>Name()\<close> and \<^verbatim>\<open>Schema()\<close>.
\<close>

datatype node =
    Sort (Resolved: bool) "sortField list"
  | GroupBy (Resolved: bool) "expr list" "expr list"
  | Project (Resolved: bool) "expr list"
  | TableAlias (Resolved: bool) node string schema
  | Table (Resolved: bool) string schema
  | OtherNode (Resolved: bool)

text \<open>
  The dynamic type of a node, which the format verb \<^verbatim>\<open>%T\<close> of
  \<^verbatim>\<open>ErrValidationResolved\<close> prints.
\<close>

datatype nodeKind = SortKind | GroupByKind | ProjectKind | TableAliasKind | TableKind | OtherKind

fun kindOf :: "node \<Rightarrow> nodeKind" where
  "kindOf (Sort r fs) = SortKind"
| "kindOf (GroupBy r aggs grouping) = GroupByKind"
| "kindOf (Project r ps) = ProjectKind"
| "kindOf (TableAlias r c nm sch) = TableAliasKind"
| "kindOf (Table r nm sch) = TableKind"
| "kindOf (OtherNode r) = OtherKind"

text \<open>
  The type assertion \<^verbatim>\<open>n.(sql.Table)\<close>, giving the name and the schema of the table.
  \<^verbatim>\<open>sql.Table\<close> asks for a node with a \<^verbatim>\<open>Name()\<close>; \<^verbatim>\<open>*plan.TableAlias\<close> is
  such a node, which is why \<^verbatim>\<open>validateSchemaSource\<close> lists its case first.
\<close>

fun asTable :: "node \<Rightarrow> (string \<times> schema) option" where
  "asTable (Table r nm sch) = Some (nm, sch)"
| "asTable (TableAlias r c nm sch) = Some (nm, sch)"
| "asTable (Sort r fs) = None"
| "asTable (GroupBy r aggs grouping) = None"
| "asTable (Project r ps) = None"
| "asTable (OtherNode r) = None"

subsection \<open>Errors\<close>

text \<open>
  One constructor for each error kind of the file, with the arguments handed to
  \<^verbatim>\<open>New\<close>: the node's dynamic type, the expression's string, the table name and the
  source found, the position and the number of columns.
\<close>

datatype validationError =
    ErrValidationResolved nodeKind
  | ErrValidationOrderBy
  | ErrValidationGroupBy string
  | ErrValidationSchemaSource string string
  | ErrProjectTuple nat int

subsection \<open>The rules\<close>

definition validateIsResolved :: "node \<Rightarrow> validationError option" where
  "validateIsResolved n =
     (if \<not> Resolved n then Some (ErrValidationResolved (kindOf n)) else None)"

text \<open>The loop over \<^verbatim>\<open>n.SortFields\<close>: the first aggregation column ends it.\<close>

fun orderByLoop :: "sortField list \<Rightarrow> validationError option" where
  "orderByLoop [] = None"
| "orderByLoop (field # rest) =
     (if isAggregation (Column field) then Some ErrValidationOrderBy
      else orderByLoop rest)"

fun validateOrderBy :: "node \<Rightarrow> validationError option" where
  "validateOrderBy (Sort r sortFields) = orderByLoop sortFields"
| "validateOrderBy n = None"

fun stringContains :: "string list \<Rightarrow> string \<Rightarrow> bool" where
  "stringContains [] target = False"
| "stringContains (s # strs) target = (if s = target then True else stringContains strs target)"

fun isValidAgg :: "string list \<Rightarrow> expr \<Rightarrow> bool" where
  "isValidAgg validAggs (Aggregation s ty) = True"
| "isValidAgg validAggs (Alias c s ty) = isValidAgg validAggs c"
| "isValidAgg validAggs (OtherExpr s ty) = stringContains validAggs (String (OtherExpr s ty))"

text \<open>The loop over \<^verbatim>\<open>n.Aggregate\<close>.\<close>

fun groupByLoop :: "string list \<Rightarrow> expr list \<Rightarrow> validationError option" where
  "groupByLoop validAggs [] = None"
| "groupByLoop validAggs (e # es) =
     (if \<not> isAggregation e then
        (if \<not> isValidAgg validAggs e then Some (ErrValidationGroupBy (String e))
         else groupByLoop validAggs es)
      else groupByLoop validAggs es)"

fun validateGroupBy :: "node \<Rightarrow> validationError option" where
  "validateGroupBy (GroupBy r aggs grouping) =
     (if length grouping = 0 then None
      else groupByLoop (map String grouping) aggs)"
| "validateGroupBy n = None"

fun validateSchemaLoop :: "string \<Rightarrow> schema \<Rightarrow> validationError option" where
  "validateSchemaLoop name [] = None"
| "validateSchemaLoop name (col # cols) =
     (if Source col \<noteq> name then Some (ErrValidationSchemaSource name (Source col))
      else validateSchemaLoop name cols)"

text \<open>\<^verbatim>\<open>validateSchema\<close> takes the table as its name and schema.\<close>

definition validateSchema :: "string \<times> schema \<Rightarrow> validationError option" where
  "validateSchema t = validateSchemaLoop (fst t) (snd t)"

fun validateSchemaSource :: "node \<Rightarrow> validationError option" where
  "validateSchemaSource (TableAlias r child nm sch) =
     (case asTable child of Some t \<Rightarrow> validateSchema t | None \<Rightarrow> None)"
| "validateSchemaSource n =
     (case asTable n of Some t \<Rightarrow> validateSchema t | None \<Rightarrow> None)"

text \<open>
  The loops of \<^verbatim>\<open>validateProjectTuples\<close>, \<open>i\<close> being the index of the head of the
  remaining list.
\<close>

fun projectTuplesLoop :: "nat \<Rightarrow> expr list \<Rightarrow> validationError option" where
  "projectTuplesLoop i [] = None"
| "projectTuplesLoop i (e # es) =
     (if IsTuple (Type e) then Some (ErrProjectTuple (i + 1) (NumColumns (Type e)))
      else projectTuplesLoop (i + 1) es)"

fun validateProjectTuples :: "node \<Rightarrow> validationError option" where
  "validateProjectTuples (Project r projections) = projectTuplesLoop 0 projections"
| "validateProjectTuples (GroupBy r aggs grouping) = projectTuplesLoop 0 aggs"
| "validateProjectTuples n = None"

definition validateResolvedRule :: string where
  "validateResolvedRule = ''validate_resolved''"

definition validateOrderByRule :: string where
  "validateOrderByRule = ''validate_order_by''"

definition validateGroupByRule :: string where
  "validateGroupByRule = ''validate_group_by''"

definition validateSchemaSourceRule :: string where
  "validateSchemaSourceRule = ''validate_schema_source''"

definition validateProjectTuplesRule :: string where
  "validateProjectTuplesRule = ''validate_project_tuples''"

text \<open>A \<^verbatim>\<open>ValidationRule\<close> is a name and the function to apply.\<close>

type_synonym validationRule = "string \<times> (node \<Rightarrow> validationError option)"

definition DefaultValidationRules :: "validationRule list" where
  "DefaultValidationRules =
     [(validateResolvedRule, validateIsResolved),
      (validateOrderByRule, validateOrderBy),
      (validateGroupByRule, validateGroupBy),
      (validateSchemaSourceRule, validateSchemaSource),
      (validateProjectTuplesRule, validateProjectTuples)]"

text \<open>
  The claim about \<^verbatim>\<open>validateGroupBy\<close> speaks of an expression "after recursively
  unwrapping alias wrappers"; \<open>unwrapAlias\<close> is that expression. It belongs to the
  statement of the property, not to the code.
\<close>

fun unwrapAlias :: "expr \<Rightarrow> expr" where
  "unwrapAlias (Alias c s ty) = unwrapAlias c"
| "unwrapAlias (Aggregation s ty) = Aggregation s ty"
| "unwrapAlias (OtherExpr s ty) = OtherExpr s ty"

section \<open>The tree-entries table (package gitbase)\<close>

subsection \<open>Schema\<close>

text \<open>
  Modelled from the spec: \<^verbatim>\<open>sql.Text\<close>, the type of every column of the table, is
  declared in package \<^verbatim>\<open>sql\<close>, which is not among the sources. It is a single-column
  type.
\<close>

definition Text :: sqlType where
  "Text = \<lparr>IsTuple = False, NumColumns = 1\<rparr>"

text \<open>
  The constant \<^verbatim>\<open>TreeEntriesTableName\<close> is declared in another file of the package;
  the schema takes it as an argument.
\<close>

definition TreeEntriesSchema :: "string \<Rightarrow> schema" where
  "TreeEntriesSchema TreeEntriesTableName =
     [\<lparr>colName = ''repository_id'', colType = Text, Nullable = False,
        Source = TreeEntriesTableName\<rparr>,
      \<lparr>colName = ''tree_hash'', colType = Text, Nullable = False,
        Source = TreeEntriesTableName\<rparr>,
      \<lparr>colName = ''blob_hash'', colType = Text, Nullable = False,
        Source = TreeEntriesTableName\<rparr>,
      \<lparr>colName = ''tree_entry_mode'', colType = Text, Nullable = False,
        Source = TreeEntriesTableName\<rparr>,
      \<lparr>colName = ''tree_entry_name'', colType = Text, Nullable = False,
        Source = TreeEntriesTableName\<rparr>]"

text \<open>
  The table as a plan node: \<^verbatim>\<open>Resolved()\<close> is true, \<^verbatim>\<open>Name()\<close> is the table name
  and \<^verbatim>\<open>Schema()\<close> is \<^verbatim>\<open>TreeEntriesSchema\<close>.
\<close>

definition treeEntriesTable :: "string \<Rightarrow> node" where
  "treeEntriesTable TreeEntriesTableName =
     Table True TreeEntriesTableName (TreeEntriesSchema TreeEntriesTableName)"

subsection \<open>The object store\<close>

text \<open>
  The errors the iterators meet: \<^verbatim>\<open>io.EOF\<close>, \<^verbatim>\<open>plumbing.ErrObjectNotFound\<close>, any
  other error of the object store, and the panic of a call through a nil pointer.
\<close>

datatype error = EOF | ErrObjectNotFound | OtherError string | NilDereference

type_synonym Row = "string list"

text \<open>
  An \<^verbatim>\<open>object.File\<close>: its name, its mode (a \<^verbatim>\<open>filemode.FileMode\<close>, an unsigned
  32-bit integer) and its blob hash, kept as the string \<^verbatim>\<open>Hash.String()\<close> renders.
\<close>

record File =
  Name :: string
  Mode :: "32 word"
  Hash :: string

text \<open>
  A cursor of the object store (\<^verbatim>\<open>object.FileIter\<close>, \<^verbatim>\<open>object.TreeIter\<close>) is the
  list of the results its coming calls of \<^verbatim>\<open>Next\<close> give, an object or an error each;
  once the list is used up \<^verbatim>\<open>Next\<close> gives \<^verbatim>\<open>io.EOF\<close>.
\<close>

fun objectIterNext :: "(error + 'a) list \<Rightarrow> (error + 'a) \<times> (error + 'a) list" where
  "objectIterNext [] = (Inl EOF, [])"
| "objectIterNext (r # rs) = (r, rs)"

text \<open>
  An \<^verbatim>\<open>object.Tree\<close>: \<open>ID\<close> is what \<^verbatim>\<open>t.ID().String()\<close> renders, \<open>Files\<close> the
  cursor \<^verbatim>\<open>t.Files()\<close> opens, which walks the files of the tree and of its subtrees.
\<close>

record Tree =
  ID :: string
  Files :: "(error + File) list"

text \<open>
  A \<^verbatim>\<open>Repository\<close>: its \<^verbatim>\<open>ID\<close> and its store. \<open>TreeObject r s\<close> is the result of
  \<^verbatim>\<open>r.Repo.TreeObject(plumbing.NewHash(s))\<close> and \<open>TreeObjects r\<close> the result of
  \<^verbatim>\<open>r.Repo.TreeObjects()\<close>.
\<close>

record Repository =
  RepoID :: string
  TreeObject :: "string \<Rightarrow> error + Tree"
  TreeObjects :: "error + (error + Tree) list"

subsection \<open>Rows\<close>

text \<open>
  \<^verbatim>\<open>strconv.FormatInt(i, 8)\<close>: the digits of \<open>i\<close> in base 8, most significant first,
  after a minus sign when \<open>i\<close> is negative.
\<close>

definition octalDigit :: "nat \<Rightarrow> char" where
  "octalDigit d = ''01234567'' ! d"

fun formatOctal :: "nat \<Rightarrow> string" where
  "formatOctal u =
     (if u < 8 then [octalDigit u] else formatOctal (u div 8) @ [octalDigit (u mod 8)])"

declare formatOctal.simps [simp del]

definition FormatInt8 :: "int \<Rightarrow> string" where
  "FormatInt8 i = (if i < 0 then CHR ''-'' # formatOctal (nat (- i)) else formatOctal (nat i))"

text \<open>\<^verbatim>\<open>int64(f.Mode)\<close> is the unsigned value of the mode.\<close>

definition fileToRow :: "string \<Rightarrow> Tree \<Rightarrow> File \<Rightarrow> Row" where
  "fileToRow repoID t f = [repoID, ID t, Hash f, FormatInt8 (uint (Mode f)), Name f]"

subsection \<open>Iterators\<close>

text \<open>
  The iterators are Go structs mutated by \<^verbatim>\<open>Next\<close>; here \<^verbatim>\<open>Next\<close> returns its
  result together with the iterator after the call. A nil pointer is \<open>None\<close>. The
  fields of each constructor stand in the order of the struct:
  \<^verbatim>\<open>fileIter{repoID, t, fi}\<close>, \<^verbatim>\<open>treeEntryIter{i, fi, repoID}\<close> and
  \<^verbatim>\<open>treeEntriesByHashIter{hashes, pos, repo, fi}\<close>. The position \<^verbatim>\<open>pos\<close> starts
  at zero and is only ever incremented, below the length of \<^verbatim>\<open>hashes\<close>, so it is a
  natural number.
\<close>

datatype fileIter = FileIter string Tree "(error + File) list"

datatype treeEntryIter =
  TreeEntryIter "(error + Tree) list option" "fileIter option" string

datatype treeEntriesByHashIter =
  TreeEntriesByHashIter "string list" nat "Repository option" "fileIter option"

lemma objectIterNext_Inr_shorter:
  "(Inr x, rs') = objectIterNext rs \<Longrightarrow> length rs' < length rs"
  by (cases rs) auto

fun fileIter_Next :: "fileIter \<Rightarrow> (error + Row) \<times> fileIter" where
  "fileIter_Next (FileIter repoID t fi) =
     (case objectIterNext fi of
        (Inl err, fi') \<Rightarrow> (Inl err, FileIter repoID t fi')
      | (Inr f, fi') \<Rightarrow> (Inr (fileToRow repoID t f), FileIter repoID t fi'))"

fun treeEntryIter_NewIterator :: "treeEntryIter \<Rightarrow> Repository \<Rightarrow> error + treeEntryIter" where
  "treeEntryIter_NewIterator (TreeEntryIter i fi repoID) repo =
     (case TreeObjects repo of
        Inl err \<Rightarrow> Inl err
      | Inr iter \<Rightarrow> Inr (TreeEntryIter (Some iter) None (RepoID repo)))"

function treeEntryIter_Next :: "treeEntryIter \<Rightarrow> (error + Row) \<times> treeEntryIter" where
  "treeEntryIter_Next (TreeEntryIter i fi repoID) =
     (case fi of
        None \<Rightarrow>
          (case i of
             None \<Rightarrow> (Inl NilDereference, TreeEntryIter i fi repoID)
           | Some trees \<Rightarrow>
               (case objectIterNext trees of
                  (Inl err, trees') \<Rightarrow> (Inl err, TreeEntryIter (Some trees') None repoID)
                | (Inr tree, trees') \<Rightarrow>
                    (case fileIter_Next (FileIter repoID tree (Files tree)) of
                       (Inl err, f') \<Rightarrow>
                         if err = EOF
                         then treeEntryIter_Next (TreeEntryIter (Some trees') None repoID)
                         else (Inl err, TreeEntryIter (Some trees') (Some f') repoID)
                     | (Inr row, f') \<Rightarrow>
                         (Inr row, TreeEntryIter (Some trees') (Some f') repoID))))
      | Some f \<Rightarrow>
          (case fileIter_Next f of
             (Inl err, f') \<Rightarrow>
               if err = EOF then treeEntryIter_Next (TreeEntryIter i None repoID)
               else (Inl err, TreeEntryIter i (Some f') repoID)
           | (Inr row, f') \<Rightarrow> (Inr row, TreeEntryIter i (Some f') repoID)))"
  by pat_completeness auto
termination
  by (relation "measure (\<lambda>it. case it of TreeEntryIter i fi repoID \<Rightarrow>
        2 * (case i of None \<Rightarrow> 0 | Some trees \<Rightarrow> length trees) +
        (case fi of None \<Rightarrow> 0 | Some f \<Rightarrow> 1))")
     (auto dest: objectIterNext_Inr_shorter)

fun treeEntriesByHashIter_NewIterator ::
  "treeEntriesByHashIter \<Rightarrow> Repository \<Rightarrow> error + treeEntriesByHashIter" where
  "treeEntriesByHashIter_NewIterator (TreeEntriesByHashIter hashes pos r fi) repo =
     Inr (TreeEntriesByHashIter hashes 0 (Some repo) None)"

function treeEntriesByHashIter_Next ::
  "treeEntriesByHashIter \<Rightarrow> (error + Row) \<times> treeEntriesByHashIter" where
  "treeEntriesByHashIter_Next (TreeEntriesByHashIter hashes pos repo fi) =
     (if pos \<ge> length hashes \<and> fi = None
      then (Inl EOF, TreeEntriesByHashIter hashes pos repo fi)
      else
        (case fi of
           None \<Rightarrow>
             (case repo of
                None \<Rightarrow> (Inl NilDereference, TreeEntriesByHashIter hashes (pos + 1) repo None)
              | Some r \<Rightarrow>
                  (case TreeObject r (hashes ! pos) of
                     Inl err \<Rightarrow>
                       if err = ErrObjectNotFound
                       then treeEntriesByHashIter_Next
                              (TreeEntriesByHashIter hashes (pos + 1) repo None)
                       else (Inl err, TreeEntriesByHashIter hashes (pos + 1) repo None)
                   | Inr tree \<Rightarrow>
                       (case fileIter_Next (FileIter (RepoID r) tree (Files tree)) of
                          (Inl err, f') \<Rightarrow>
                            if err = EOF
                            then treeEntriesByHashIter_Next
                                   (TreeEntriesByHashIter hashes (pos + 1) repo None)
                            else (Inl err, TreeEntriesByHashIter hashes (pos + 1) repo (Some f'))
                        | (Inr row, f') \<Rightarrow>
                            (Inr row, TreeEntriesByHashIter hashes (pos + 1) repo (Some f')))))
         | Some f \<Rightarrow>
             (case fileIter_Next f of
                (Inl err, f') \<Rightarrow>
                  if err = EOF
                  then treeEntriesByHashIter_Next (TreeEntriesByHashIter hashes pos repo None)
                  else (Inl err, TreeEntriesByHashIter hashes pos repo (Some f'))
              | (Inr row, f') \<Rightarrow> (Inr row, TreeEntriesByHashIter hashes pos repo (Some f')))))"
  by pat_completeness auto
termination
  by (relation "measure (\<lambda>it. case it of TreeEntriesByHashIter hashes pos repo fi \<Rightarrow>
        2 * (length hashes - pos) + (case fi of None \<Rightarrow> 0 | Some f \<Rightarrow> 1))")
     auto

declare treeEntryIter_Next.simps [simp del]

declare treeEntriesByHashIter_Next.simps [simp del]

subsection \<open>The scan entry point\<close>

text \<open>
  A \<^verbatim>\<open>RowRepoIter\<close> is an interface value; the table builds the two iterator types
  above.
\<close>

datatype RowRepoIter =
    RowRepoIter_treeEntryIter treeEntryIter
  | RowRepoIter_treeEntriesByHashIter treeEntriesByHashIter

text \<open>
  The type \<^verbatim>\<open>selectors\<close> is declared in another file of the package. The entry point
  uses it as a Go map from a column name to a slice, whose length it takes, so it is a
  map to lists of an unspecified element type; indexing a Go map by a missing key gives
  the nil slice.
\<close>

type_synonym 's selectors = "string \<rightharpoonup> 's list"

definition selectorsIndex :: "'s selectors \<Rightarrow> string \<Rightarrow> 's list" where
  "selectorsIndex sels key = (case sels key of None \<Rightarrow> [] | Some vs \<Rightarrow> vs)"

text \<open>
  The function literal handed to \<^verbatim>\<open>rowIterWithSelectors\<close>. The method
  \<^verbatim>\<open>selectors.textValues\<close> is declared with the type and is an argument.
  \<^verbatim>\<open>new(treeEntryIter)\<close> and \<^verbatim>\<open>&treeEntriesByHashIter{hashes: hashes}\<close> leave the
  other fields at their zero values.
\<close>

definition rowRepoIterFunc ::
  "('s selectors \<Rightarrow> string \<Rightarrow> error + string list) \<Rightarrow> 's selectors \<Rightarrow> error + RowRepoIter" where
  "rowRepoIterFunc textValues sels =
     (if length (selectorsIndex sels ''tree_hash'') = 0
      then Inr (RowRepoIter_treeEntryIter (TreeEntryIter None None []))
      else
        (case textValues sels ''tree_hash'' of
           Inl err \<Rightarrow> Inl err
         | Inr hashes \<Rightarrow>
             Inr (RowRepoIter_treeEntriesByHashIter (TreeEntriesByHashIter hashes 0 None None))))"

text \<open>
  \<^verbatim>\<open>WithProjectAndFilters\<close>. The function \<^verbatim>\<open>rowIterWithSelectors\<close> is declared in
  another file of the package and is an argument; the projection is ignored, as in the
  source, and the span that wraps the resulting iterator is left out.
\<close>

definition WithProjectAndFilters ::
  "(schema \<Rightarrow> string \<Rightarrow> 'f list \<Rightarrow> string list \<Rightarrow>
      ('s selectors \<Rightarrow> error + RowRepoIter) \<Rightarrow> error + 'i) \<Rightarrow>
   ('s selectors \<Rightarrow> string \<Rightarrow> error + string list) \<Rightarrow>
   string \<Rightarrow> 'f list \<Rightarrow> 'f list \<Rightarrow> error + 'i" where
  "WithProjectAndFilters rowIterWithSelectors textValues TreeEntriesTableName projection filters =
     (case rowIterWithSelectors (TreeEntriesSchema TreeEntriesTableName) TreeEntriesTableName
             filters [''tree_hash''] (rowRepoIterFunc textValues) of
        Inl err \<Rightarrow> Inl err
      | Inr iter \<Rightarrow> Inr iter)"

subsection \<open>Notions the properties are stated with\<close>

text \<open>The \<^verbatim>\<open>hashes\<close> field of a by-hash iterator.\<close>

fun byHash_hashes :: "treeEntriesByHashIter \<Rightarrow> string list" where
  "byHash_hashes (TreeEntriesByHashIter hashes pos repo fi) = hashes"

text \<open>
  The number a string of octal digits denotes, most significant digit first; it says
  what "formatted in base 8" means for the mode column.
\<close>

definition octalValue :: "string \<Rightarrow> nat" where
  "octalValue s = foldl (\<lambda>acc c. 8 * acc + (of_char c - 48)) 0 s"

text \<open>
  What holds of an open file iterator in every reachable state: it carries the
  repository id \<open>rid\<close>, its tree is one of the trees \<open>known\<close> to the scan, and what it
  has left to walk is part of that tree's files.
\<close>

definition fileIter_ok :: "string \<Rightarrow> (Tree \<Rightarrow> bool) \<Rightarrow> fileIter option \<Rightarrow> bool" where
  "fileIter_ok rid known fi =
     (case fi of
        None \<Rightarrow> True
      | Some (FileIter rid' t fs) \<Rightarrow> rid' = rid \<and> known t \<and> set fs \<subseteq> set (Files t))"

text \<open>A row built by \<^verbatim>\<open>fileToRow\<close> from a file of a known tree.\<close>

definition row_of :: "string \<Rightarrow> (Tree \<Rightarrow> bool) \<Rightarrow> Row \<Rightarrow> bool" where
  "row_of rid known row =
     (\<exists>t f. known t \<and> Inr f \<in> set (Files t) \<and> row = fileToRow rid t f)"

text \<open>The trees a by-hash scan of repository \<open>r\<close> can open: those its hashes resolve to.\<close>

definition byHash_known :: "string list \<Rightarrow> Repository \<Rightarrow> Tree \<Rightarrow> bool" where
  "byHash_known hashes r t = (\<exists>h \<in> set hashes. TreeObject r h = Inr t)"

fun byHash_inv :: "Repository \<Rightarrow> treeEntriesByHashIter \<Rightarrow> bool" where
  "byHash_inv r (TreeEntriesByHashIter hashes pos repo fi) =
     (repo = Some r \<and> fileIter_ok (RepoID r) (byHash_known hashes r) fi)"

text \<open>
  The invariant of a full traversal of repository \<open>r\<close> over the trees \<open>trees\<close>: the
  tree cursor has part of them left, and the open file iterator is as above.
\<close>

fun treeEntry_inv :: "Repository \<Rightarrow> (error + Tree) list \<Rightarrow> treeEntryIter \<Rightarrow> bool" where
  "treeEntry_inv r trees (TreeEntryIter i fi repoID) =
     (repoID = RepoID r \<and> (\<exists>rest. i = Some rest \<and> set rest \<subseteq> set trees) \<and>
      fileIter_ok (RepoID r) (\<lambda>t. Inr t \<in> set trees) fi)"

text \<open>
  The stream of results a by-hash scan of one repository is to deliver, written as a
  recursion over the hash list rather than as an iterator: the rows and then the error
  that ends them, \<^verbatim>\<open>io.EOF\<close> when nothing is left. \<open>fileRows\<close> is the stream of one
  tree's file walk, \<open>thenRows\<close> continues a stream that ended with \<^verbatim>\<open>io.EOF\<close> by the
  next one, and \<open>scanHashes\<close> resolves every hash in turn, passing over a hash that is
  not found and stopping at any other error.
\<close>

fun fileRows :: "string \<Rightarrow> Tree \<Rightarrow> (error + File) list \<Rightarrow> Row list \<times> error" where
  "fileRows repoID t [] = ([], EOF)"
| "fileRows repoID t (Inl err # rest) = ([], err)"
| "fileRows repoID t (Inr f # rest) =
     (fileToRow repoID t f # fst (fileRows repoID t rest), snd (fileRows repoID t rest))"

definition thenRows :: "Row list \<times> error \<Rightarrow> Row list \<times> error \<Rightarrow> Row list \<times> error" where
  "thenRows a b = (if snd a = EOF then (fst a @ fst b, snd b) else a)"

fun scanHashes :: "Repository \<Rightarrow> string list \<Rightarrow> Row list \<times> error" where
  "scanHashes r [] = ([], EOF)"
| "scanHashes r (h # hs) =
     (case TreeObject r h of
        Inl err \<Rightarrow> if err = ErrObjectNotFound then scanHashes r hs else ([], err)
      | Inr tree \<Rightarrow> thenRows (fileRows (RepoID r) tree (Files tree)) (scanHashes r hs))"


text \<open>
  What an iterator bound to repository \<open>r\<close> has still to deliver: the rest of the open
  file iterator, then the scan of the hashes from \<^verbatim>\<open>pos\<close> on. \<open>delivers\<close> says that a
  result of \<^verbatim>\<open>Next\<close> is the head of such a stream and leaves its tail.
\<close>

fun byHash_pending :: "Repository \<Rightarrow> treeEntriesByHashIter \<Rightarrow> Row list \<times> error" where
  "byHash_pending r (TreeEntriesByHashIter hashes pos repo fi) =
     thenRows
       (case fi of None \<Rightarrow> ([], EOF) | Some (FileIter repoID t fs) \<Rightarrow> fileRows repoID t fs)
       (scanHashes r (drop pos hashes))"

fun byHash_bound :: "Repository \<Rightarrow> treeEntriesByHashIter \<Rightarrow> bool" where
  "byHash_bound r (TreeEntriesByHashIter hashes pos repo fi) = (repo = Some r)"

definition delivers :: "error + Row \<Rightarrow> Row list \<times> error \<Rightarrow> Row list \<times> error \<Rightarrow> bool" where
  "delivers res before after =
     (case fst before of
        [] \<Rightarrow> res = Inl (snd before)
      | row # rows \<Rightarrow> res = Inr row \<and> after = (rows, snd before))"


subsection \<open>Example data\<close>

text \<open>
  A repository with one tree of two files (modes \<^verbatim>\<open>0100644\<close> and \<^verbatim>\<open>0100755\<close>), a
  tree whose file walk fails, a hash whose lookup fails for a reason other than
  \<^verbatim>\<open>ErrObjectNotFound\<close>, and no other object.
\<close>

definition missingHash :: string where
  "missingHash = ''00000000000000000000000000000000000000a1''"

definition otherMissingHash :: string where
  "otherMissingHash = ''00000000000000000000000000000000000000a2''"

definition unreadableHash :: string where
  "unreadableHash = ''00000000000000000000000000000000000000b1''"

definition exampleTreeHash :: string where
  "exampleTreeHash = ''00000000000000000000000000000000000000c1''"

definition brokenTreeHash :: string where
  "brokenTreeHash = ''00000000000000000000000000000000000000d1''"

definition exampleTree :: Tree where
  "exampleTree =
     \<lparr>ID = exampleTreeHash,
      Files =
        [Inr \<lparr>Name = ''README.md'', Mode = 33188,
              Hash = ''00000000000000000000000000000000000000e1''\<rparr>,
         Inr \<lparr>Name = ''bin/run'', Mode = 33261,
              Hash = ''00000000000000000000000000000000000000e2''\<rparr>]\<rparr>"

definition brokenTree :: Tree where
  "brokenTree = \<lparr>ID = brokenTreeHash, Files = [Inl (OtherError ''corrupt object'')]\<rparr>"

definition exampleRepository :: Repository where
  "exampleRepository =
     \<lparr>RepoID = ''repo1'',
      TreeObject = (\<lambda>h.
        if h = exampleTreeHash then Inr exampleTree
        else if h = brokenTreeHash then Inr brokenTree
        else if h = unreadableHash then Inl (OtherError ''read failed'')
        else Inl ErrObjectNotFound),
      TreeObjects = Inr [Inr exampleTree, Inr brokenTree]\<rparr>"

text \<open>The same store under another repository id.\<close>

definition secondRepository :: Repository where
  "secondRepository = exampleRepository\<lparr>RepoID := ''repo2''\<rparr>"




section \<open>Properties of the validation rules\<close>

subsection \<open>The loops, characterised\<close>

lemma orderByLoop_iff:
  "orderByLoop fs =
     (if (\<exists>f \<in> set fs. isAggregation (Column f)) then Some ErrValidationOrderBy else None)"
  by (induction fs) auto

lemma stringContains_set: "stringContains strs target \<longleftrightarrow> target \<in> set strs"
  by (induction strs) auto

lemma isValidAgg_unwrap:
  "isValidAgg v e \<longleftrightarrow> isAggregation (unwrapAlias e) \<or> String (unwrapAlias e) \<in> set v"
  by (induction e) (auto simp: stringContains_set)

lemma isAggregation_unwrap: "isAggregation e \<Longrightarrow> isAggregation (unwrapAlias e)"
  by (cases e) auto

lemma groupByLoop_find:
  "groupByLoop v es =
     map_option (\<lambda>e. ErrValidationGroupBy (String e))
       (find (\<lambda>e. \<not> isAggregation (unwrapAlias e) \<and> String (unwrapAlias e) \<notin> set v) es)"
proof (induction es)
  case Nil
  show ?case by simp
next
  case (Cons e es)
  show ?case
  proof (cases "isAggregation e")
    case True
    with Cons show ?thesis by (simp add: isAggregation_unwrap)
  next
    case False
    with Cons show ?thesis by (simp add: isValidAgg_unwrap)
  qed
qed

lemma validateSchemaLoop_find:
  "validateSchemaLoop nm sch =
     map_option (\<lambda>c. ErrValidationSchemaSource nm (Source c)) (find (\<lambda>c. Source c \<noteq> nm) sch)"
  by (induction sch) auto

lemma projectTuplesLoop_first:
  "i < length es \<Longrightarrow> IsTuple (Type (es ! i)) \<Longrightarrow> \<forall>j<i. \<not> IsTuple (Type (es ! j)) \<Longrightarrow>
   projectTuplesLoop k es = Some (ErrProjectTuple (k + i + 1) (NumColumns (Type (es ! i))))"
proof (induction es arbitrary: i k)
  case Nil
  then show ?case by simp
next
  case (Cons e es)
  show ?case
  proof (cases i)
    case 0
    with Cons.prems show ?thesis by simp
  next
    case (Suc i')
    from Cons.prems(3) Suc have "\<not> IsTuple (Type e)" by auto
    moreover have "projectTuplesLoop (k + 1) es =
        Some (ErrProjectTuple (k + 1 + i' + 1) (NumColumns (Type (es ! i'))))"
      using Cons.prems Suc by (intro Cons.IH) auto
    ultimately show ?thesis using Suc by simp
  qed
qed

lemma projectTuplesLoop_None:
  "projectTuplesLoop k es = None \<longleftrightarrow> (\<forall>e \<in> set es. \<not> IsTuple (Type e))"
  by (induction es arbitrary: k) auto

lemma projectTuplesLoop_Some:
  "projectTuplesLoop k es = Some err \<Longrightarrow>
   \<exists>i<length es. IsTuple (Type (es ! i)) \<and> (\<forall>j<i. \<not> IsTuple (Type (es ! j))) \<and>
     err = ErrProjectTuple (k + i + 1) (NumColumns (Type (es ! i)))"
proof (induction es arbitrary: k)
  case Nil
  then show ?case by simp
next
  case (Cons e es)
  show ?case
  proof (cases "IsTuple (Type e)")
    case True
    with Cons.prems have "err = ErrProjectTuple (k + 0 + 1) (NumColumns (Type ((e # es) ! 0)))"
      by simp
    with True show ?thesis by (intro exI [of _ 0]) simp
  next
    case False
    with Cons.prems have "projectTuplesLoop (k + 1) es = Some err" by simp
    from Cons.IH [OF this] obtain i where i: "i < length es" "IsTuple (Type (es ! i))"
      "\<forall>j<i. \<not> IsTuple (Type (es ! j))"
      "err = ErrProjectTuple (k + 1 + i + 1) (NumColumns (Type (es ! i)))" by blast
    have "\<forall>j<Suc i. \<not> IsTuple (Type ((e # es) ! j))"
      using False i(3) by (auto simp: less_Suc_eq_0_disj)
    with i show ?thesis by (intro exI [of _ "Suc i"]) simp
  qed
qed

subsection \<open>The order-by rule\<close>

text \<open>
  Claim C6. For a Sort node, \<^verbatim>\<open>validateOrderBy\<close> returns \<^verbatim>\<open>ErrValidationOrderBy\<close>
  when some sort field's column is itself an aggregation, and nil when no sort field's
  column is one; for every node that is not a Sort it returns nil.
\<close>

theorem validateOrderBy_aggregation_keys:
  "((\<exists>f \<in> set fs. isAggregation (Column f)) \<longrightarrow>
      validateOrderBy (Sort r fs) = Some ErrValidationOrderBy) \<and>
   ((\<forall>f \<in> set fs. \<not> isAggregation (Column f)) \<longrightarrow> validateOrderBy (Sort r fs) = None) \<and>
   (kindOf n \<noteq> SortKind \<longrightarrow> validateOrderBy n = None)"
  by (cases n) (simp_all add: orderByLoop_iff)

text \<open>
  The rule at a Sort with an aggregation key, at a Sort whose keys are a column and an
  aliased aggregation (which is not itself an aggregation), and at a Project.
\<close>

theorem validateOrderBy_aggregation_keys_witness:
  "validateOrderBy (Sort True [\<lparr>Column = OtherExpr ''a'' Text, Order = Ascending\<rparr>,
       \<lparr>Column = Aggregation ''COUNT(*)'' Text, Order = Descending\<rparr>]) =
     Some ErrValidationOrderBy \<and>
   validateOrderBy (Sort True [\<lparr>Column = OtherExpr ''a'' Text, Order = Ascending\<rparr>,
       \<lparr>Column = Alias (Aggregation ''COUNT(*)'' Text) ''COUNT(*) as c'' Text,
        Order = Descending\<rparr>]) = None \<and>
   validateOrderBy (Project True [Aggregation ''COUNT(*)'' Text]) = None"
  using
    validateOrderBy_aggregation_keys [of
      "[\<lparr>Column = OtherExpr ''a'' Text, Order = Ascending\<rparr>,
        \<lparr>Column = Aggregation ''COUNT(*)'' Text, Order = Descending\<rparr>]"
      True "Project True [Aggregation ''COUNT(*)'' Text]"]
    validateOrderBy_aggregation_keys [of
      "[\<lparr>Column = OtherExpr ''a'' Text, Order = Ascending\<rparr>,
        \<lparr>Column = Alias (Aggregation ''COUNT(*)'' Text) ''COUNT(*) as c'' Text,
         Order = Descending\<rparr>]"
      True "Project True [Aggregation ''COUNT(*)'' Text]"]
  by simp

subsection \<open>The resolved rule\<close>

text \<open>
  Claim C7. \<^verbatim>\<open>validateIsResolved\<close> returns an error exactly when the node reports
  itself not resolved, and the error is \<^verbatim>\<open>ErrValidationResolved\<close> with the node's
  kind; for a resolved node it returns nil whatever else the node holds. The rule is
  the first entry of \<^verbatim>\<open>DefaultValidationRules\<close>, under the name
  \<^verbatim>\<open>validate_resolved\<close>.
\<close>

theorem validateIsResolved_iff:
  "(validateIsResolved n \<noteq> None \<longleftrightarrow> \<not> Resolved n) \<and>
   (\<not> Resolved n \<longrightarrow> validateIsResolved n = Some (ErrValidationResolved (kindOf n))) \<and>
   (Resolved n \<longrightarrow> validateIsResolved n = None) \<and>
   hd DefaultValidationRules = (validateResolvedRule, validateIsResolved) \<and>
   validateResolvedRule = ''validate_resolved''"
  by (simp add: validateIsResolved_def DefaultValidationRules_def validateResolvedRule_def)

text \<open>
  The rule at an unresolved Project and at a resolved table whose schema is otherwise
  wrong.
\<close>

theorem validateIsResolved_iff_witness:
  "validateIsResolved (Project False [OtherExpr ''a'' Text]) =
     Some (ErrValidationResolved ProjectKind) \<and>
   validateIsResolved (Table True ''t''
       [\<lparr>colName = ''c'', colType = Text, Nullable = False, Source = ''other''\<rparr>]) = None"
  using
    validateIsResolved_iff [of "Project False [OtherExpr ''a'' Text]"]
    validateIsResolved_iff [of "Table True ''t''
       [\<lparr>colName = ''c'', colType = Text, Nullable = False, Source = ''other''\<rparr>]"]
  by simp

subsection \<open>The group-by rule\<close>

text \<open>
  Claim C1, as stated, asks for an error whenever some aggregate expression is not an
  aggregation and, once its aliases are unwrapped, has a string that is none of the
  grouping expressions' strings. An alias of an aggregation is such an expression, and
  the rule accepts it: \<^verbatim>\<open>isValidAgg\<close> answers true for an aggregation it reaches
  through aliases.
\<close>

theorem validateGroupBy_aliased_aggregation_counterexample:
  "validateGroupBy (GroupBy True
      [Alias (Aggregation ''COUNT(*)'' Text) ''COUNT(*) as n'' Text]
      [OtherExpr ''a'' Text]) = None \<and>
   \<not> isAggregation (Alias (Aggregation ''COUNT(*)'' Text) ''COUNT(*) as n'' Text) \<and>
   String (unwrapAlias (Alias (Aggregation ''COUNT(*)'' Text) ''COUNT(*) as n'' Text))
     \<notin> set (map String [OtherExpr ''a'' Text])"
  by simp

text \<open>
  Claim C1, amended. For a GroupBy node without grouping expressions
  \<^verbatim>\<open>validateGroupBy\<close> returns nil whatever the aggregate list holds. With grouping
  expressions it returns \<^verbatim>\<open>ErrValidationGroupBy\<close> exactly when some expression of the
  aggregate list is, after its alias wrappers are unwrapped, neither an aggregation nor
  string-equal to one of the grouping expressions; the error carries the string of the
  first such expression of the list, as the list holds it. For every node that is not a
  GroupBy it returns nil.
\<close>

theorem validateGroupBy_unwrapped:
  "validateGroupBy (GroupBy r aggs []) = None \<and>
   (grouping \<noteq> [] \<longrightarrow>
      validateGroupBy (GroupBy r aggs grouping) =
        map_option (\<lambda>e. ErrValidationGroupBy (String e))
          (find (\<lambda>e. \<not> isAggregation (unwrapAlias e) \<and>
                      String (unwrapAlias e) \<notin> set (map String grouping)) aggs)) \<and>
   (grouping \<noteq> [] \<longrightarrow>
      (validateGroupBy (GroupBy r aggs grouping) \<noteq> None \<longleftrightarrow>
        (\<exists>e \<in> set aggs. \<not> isAggregation (unwrapAlias e) \<and>
                      String (unwrapAlias e) \<notin> set (map String grouping)))) \<and>
   (kindOf n \<noteq> GroupByKind \<longrightarrow> validateGroupBy n = None)"
proof -
  have "kindOf n \<noteq> GroupByKind \<longrightarrow> validateGroupBy n = None"
    by (cases n) simp_all
  moreover have "grouping \<noteq> [] \<longrightarrow>
      validateGroupBy (GroupBy r aggs grouping) =
        map_option (\<lambda>e. ErrValidationGroupBy (String e))
          (find (\<lambda>e. \<not> isAggregation (unwrapAlias e) \<and>
                      String (unwrapAlias e) \<notin> set (map String grouping)) aggs)"
    by (simp add: groupByLoop_find)
  moreover have "grouping \<noteq> [] \<longrightarrow>
      (validateGroupBy (GroupBy r aggs grouping) \<noteq> None \<longleftrightarrow>
        (\<exists>e \<in> set aggs. \<not> isAggregation (unwrapAlias e) \<and>
                      String (unwrapAlias e) \<notin> set (map String grouping)))"
    by (auto simp: groupByLoop_find find_None_iff)
  ultimately show ?thesis by simp
qed

text \<open>
  The rule at a node without grouping, at a node whose fourth aggregate expression is
  the first offending one, at an alias of an aggregation, and at a Sort.
\<close>

theorem validateGroupBy_unwrapped_witness:
  "validateGroupBy (GroupBy True [OtherExpr ''z'' Text] []) = None \<and>
   validateGroupBy (GroupBy True
      [OtherExpr ''a'' Text,
       Alias (Aggregation ''COUNT(*)'' Text) ''COUNT(*) as n'' Text,
       Alias (OtherExpr ''b'' Text) ''b as x'' Text,
       Alias (OtherExpr ''c'' Text) ''c as y'' Text,
       OtherExpr ''d'' Text]
      [OtherExpr ''a'' Text, OtherExpr ''b'' Text]) = Some (ErrValidationGroupBy ''c as y'') \<and>
   validateGroupBy (GroupBy True
      [Alias (Aggregation ''COUNT(*)'' Text) ''COUNT(*) as n'' Text]
      [OtherExpr ''a'' Text]) = None \<and>
   validateGroupBy (Sort True []) = None"
  using
    validateGroupBy_unwrapped [of True "[OtherExpr ''z'' Text]"
      "[OtherExpr ''a'' Text, OtherExpr ''b'' Text]" "Sort True []"]
    validateGroupBy_unwrapped [of True
      "[OtherExpr ''a'' Text,
        Alias (Aggregation ''COUNT(*)'' Text) ''COUNT(*) as n'' Text,
        Alias (OtherExpr ''b'' Text) ''b as x'' Text,
        Alias (OtherExpr ''c'' Text) ''c as y'' Text,
        OtherExpr ''d'' Text]"
      "[OtherExpr ''a'' Text, OtherExpr ''b'' Text]" "Sort True []"]
    validateGroupBy_unwrapped [of True
      "[Alias (Aggregation ''COUNT(*)'' Text) ''COUNT(*) as n'' Text]"
      "[OtherExpr ''a'' Text]" "Sort True []"]
  by simp

subsection \<open>The schema-source rule\<close>

text \<open>
  Claim C5. For a Table node \<^verbatim>\<open>validateSchemaSource\<close> returns
  \<^verbatim>\<open>ErrValidationSchemaSource\<close> exactly when some column of the table's schema has a
  source other than the table's name, and the error carries that name and the source of
  the first such column. For a TableAlias whose child is a table the result is the one
  of the child, whatever the alias's own name and schema are; for a TableAlias whose
  child is no table, and for every other node, it is nil.
\<close>

theorem validateSchemaSource_tables:
  "validateSchemaSource (Table r nm sch) =
     map_option (\<lambda>c. ErrValidationSchemaSource nm (Source c)) (find (\<lambda>c. Source c \<noteq> nm) sch) \<and>
   (validateSchemaSource (Table r nm sch) \<noteq> None \<longleftrightarrow> (\<exists>c \<in> set sch. Source c \<noteq> nm)) \<and>
   (asTable child = Some (nm, sch) \<longrightarrow>
      validateSchemaSource (TableAlias r' child anm asch) = validateSchemaSource (Table r nm sch)) \<and>
   (asTable child = None \<longrightarrow> validateSchemaSource (TableAlias r' child anm asch) = None) \<and>
   (kindOf n \<noteq> TableKind \<and> kindOf n \<noteq> TableAliasKind \<longrightarrow> validateSchemaSource n = None)"
proof -
  have "kindOf n \<noteq> TableKind \<and> kindOf n \<noteq> TableAliasKind \<longrightarrow> validateSchemaSource n = None"
    by (cases n) simp_all
  moreover have "validateSchemaSource (Table r nm sch) =
     map_option (\<lambda>c. ErrValidationSchemaSource nm (Source c)) (find (\<lambda>c. Source c \<noteq> nm) sch)"
    by (simp add: validateSchema_def validateSchemaLoop_find)
  moreover have "validateSchemaSource (Table r nm sch) \<noteq> None \<longleftrightarrow> (\<exists>c \<in> set sch. Source c \<noteq> nm)"
    by (auto simp: validateSchema_def validateSchemaLoop_find find_None_iff)
  ultimately show ?thesis by simp
qed

text \<open>
  The rule at a table whose second and third columns have foreign sources, at an alias
  of that table, at an alias of a Project, and at a Project.
\<close>

theorem validateSchemaSource_tables_witness:
  "validateSchemaSource (Table True ''t''
     [\<lparr>colName = ''a'', colType = Text, Nullable = False, Source = ''t''\<rparr>,
      \<lparr>colName = ''b'', colType = Text, Nullable = False, Source = ''u''\<rparr>,
      \<lparr>colName = ''c'', colType = Text, Nullable = False, Source = ''v''\<rparr>]) =
     Some (ErrValidationSchemaSource ''t'' ''u'') \<and>
   validateSchemaSource (TableAlias True (Table True ''t''
     [\<lparr>colName = ''a'', colType = Text, Nullable = False, Source = ''t''\<rparr>,
      \<lparr>colName = ''b'', colType = Text, Nullable = False, Source = ''u''\<rparr>,
      \<lparr>colName = ''c'', colType = Text, Nullable = False, Source = ''v''\<rparr>]) ''x'' []) =
     Some (ErrValidationSchemaSource ''t'' ''u'') \<and>
   validateSchemaSource (TableAlias True (Project True []) ''x''
     [\<lparr>colName = ''a'', colType = Text, Nullable = False, Source = ''t''\<rparr>]) = None \<and>
   validateSchemaSource (Project True []) = None"
  using
    validateSchemaSource_tables [of True "''t''"
      "[\<lparr>colName = ''a'', colType = Text, Nullable = False, Source = ''t''\<rparr>,
        \<lparr>colName = ''b'', colType = Text, Nullable = False, Source = ''u''\<rparr>,
        \<lparr>colName = ''c'', colType = Text, Nullable = False, Source = ''v''\<rparr>]"
      "Table True ''t''
        [\<lparr>colName = ''a'', colType = Text, Nullable = False, Source = ''t''\<rparr>,
         \<lparr>colName = ''b'', colType = Text, Nullable = False, Source = ''u''\<rparr>,
         \<lparr>colName = ''c'', colType = Text, Nullable = False, Source = ''v''\<rparr>]"
      True "''x''" "[]" "Project True []"]
    validateSchemaSource_tables [of True "''t''" "[]" "Project True []" True "''x''"
      "[\<lparr>colName = ''a'', colType = Text, Nullable = False, Source = ''t''\<rparr>]" "Project True []"]
  by simp

subsection \<open>The projection rule\<close>

text \<open>
  Claim C8. For a Project node's projections and for a GroupBy node's aggregate
  expressions alike: when the expression at index \<open>i\<close> is the first whose type is a
  tuple, \<^verbatim>\<open>validateProjectTuples\<close> returns \<^verbatim>\<open>ErrProjectTuple\<close> with the position
  \<open>i + 1\<close> and the number of columns of that type; it returns an error exactly when
  some expression has a tuple type, and every error it returns is of that form.
\<close>

theorem validateProjectTuples_first_tuple:
  "(i < length es \<and> IsTuple (Type (es ! i)) \<and> (\<forall>j<i. \<not> IsTuple (Type (es ! j))) \<longrightarrow>
      validateProjectTuples (Project r es) =
        Some (ErrProjectTuple (i + 1) (NumColumns (Type (es ! i)))) \<and>
      validateProjectTuples (GroupBy r es grouping) =
        Some (ErrProjectTuple (i + 1) (NumColumns (Type (es ! i))))) \<and>
   (validateProjectTuples (Project r es) \<noteq> None \<longleftrightarrow> (\<exists>e \<in> set es. IsTuple (Type e))) \<and>
   (validateProjectTuples (GroupBy r es grouping) \<noteq> None \<longleftrightarrow> (\<exists>e \<in> set es. IsTuple (Type e))) \<and>
   (validateProjectTuples (Project r es) = Some err \<or>
    validateProjectTuples (GroupBy r es grouping) = Some err \<longrightarrow>
      (\<exists>k<length es. IsTuple (Type (es ! k)) \<and> (\<forall>j<k. \<not> IsTuple (Type (es ! j))) \<and>
         err = ErrProjectTuple (k + 1) (NumColumns (Type (es ! k)))))"
proof -
  have "i < length es \<and> IsTuple (Type (es ! i)) \<and> (\<forall>j<i. \<not> IsTuple (Type (es ! j))) \<longrightarrow>
      projectTuplesLoop 0 es = Some (ErrProjectTuple (i + 1) (NumColumns (Type (es ! i))))"
    using projectTuplesLoop_first [of i es 0] by simp
  moreover have "projectTuplesLoop 0 es \<noteq> None \<longleftrightarrow> (\<exists>e \<in> set es. IsTuple (Type e))"
    using projectTuplesLoop_None [of 0 es] by simp
  moreover have "projectTuplesLoop 0 es = Some err \<longrightarrow>
      (\<exists>k<length es. IsTuple (Type (es ! k)) \<and> (\<forall>j<k. \<not> IsTuple (Type (es ! j))) \<and>
         err = ErrProjectTuple (k + 1) (NumColumns (Type (es ! k))))"
    using projectTuplesLoop_Some [of 0 es err] by simp
  ultimately show ?thesis by simp
qed

text \<open>
  The rule at a list whose second expression is a tuple of three columns and whose third
  is a tuple of two.
\<close>

theorem validateProjectTuples_first_tuple_witness:
  "validateProjectTuples (Project True
     [OtherExpr ''a'' Text, OtherExpr ''(b, c, d)'' \<lparr>IsTuple = True, NumColumns = 3\<rparr>,
      OtherExpr ''(e, f)'' \<lparr>IsTuple = True, NumColumns = 2\<rparr>]) = Some (ErrProjectTuple 2 3) \<and>
   validateProjectTuples (GroupBy True
     [OtherExpr ''a'' Text, OtherExpr ''(b, c, d)'' \<lparr>IsTuple = True, NumColumns = 3\<rparr>,
      OtherExpr ''(e, f)'' \<lparr>IsTuple = True, NumColumns = 2\<rparr>] []) = Some (ErrProjectTuple 2 3)"
  using validateProjectTuples_first_tuple [of 1
     "[OtherExpr ''a'' Text, OtherExpr ''(b, c, d)'' \<lparr>IsTuple = True, NumColumns = 3\<rparr>,
       OtherExpr ''(e, f)'' \<lparr>IsTuple = True, NumColumns = 2\<rparr>]" True "[]"]
  by (simp add: Text_def)

section \<open>Properties of the tree-entries table\<close>

subsection \<open>The iterators deliver their streams\<close>

text \<open>
  Every call of \<^verbatim>\<open>Next\<close> returns the head of what the iterator has still to deliver
  and leaves the tail, so the results of successive calls are the stream, row by row,
  and then the error that ends it.
\<close>

lemma thenRows_done [simp]: "thenRows ([], EOF) b = b"
  by (simp add: thenRows_def)

lemma thenRows_failed [simp]: "e \<noteq> EOF \<Longrightarrow> thenRows (rows, e) b = (rows, e)"
  by (simp add: thenRows_def)

lemma fileIter_Next_rows:
  assumes "fileIter_Next (FileIter rid t fs) = (res, f')"
  shows "\<exists>fs'. f' = FileIter rid t fs' \<and>
      (case res of
         Inl e \<Rightarrow> fileRows rid t fs = ([], e)
       | Inr row \<Rightarrow> fileRows rid t fs =
           (row # fst (fileRows rid t fs'), snd (fileRows rid t fs')))"
proof (cases fs)
  case Nil
  with assms show ?thesis by auto
next
  case (Cons x xs)
  with assms show ?thesis by (cases x) auto
qed

lemma byHash_Next_delivers:
  "byHash_bound r it \<Longrightarrow> treeEntriesByHashIter_Next it = (res, it') \<Longrightarrow>
   delivers res (byHash_pending r it) (byHash_pending r it') \<and>
   (\<forall>row. res = Inr row \<longrightarrow> byHash_bound r it')"
proof (induction it arbitrary: res it' rule: treeEntriesByHashIter_Next.induct)
  case (1 hashes pos repo fi)
  from "1.prems"(1) have repo: "repo = Some r" by simp
  note nxt = "1.prems"(2)
  have bound: "\<And>p. byHash_bound r (TreeEntriesByHashIter hashes p repo None)"
    using repo by simp
  show ?case
  proof (cases fi)
    case (Some f)
    obtain rid t fs where f: "f = FileIter rid t fs" by (cases f)
    obtain res1 f1 where f1: "fileIter_Next f = (res1, f1)" by (cases "fileIter_Next f")
    from fileIter_Next_rows [OF f1 [unfolded f]] obtain fs' where
      f1': "f1 = FileIter rid t fs'" and
      rows: "case res1 of Inl e \<Rightarrow> fileRows rid t fs = ([], e)
        | Inr row \<Rightarrow> fileRows rid t fs =
            (row # fst (fileRows rid t fs'), snd (fileRows rid t fs'))"
      by blast
    show ?thesis
    proof (cases res1)
      case (Inr row)
      with nxt Some f1 have res: "res = Inr row"
        and it': "it' = TreeEntriesByHashIter hashes pos repo (Some f1)"
        by (subst (asm) treeEntriesByHashIter_Next.simps, auto)+
      from rows Inr have "fileRows rid t fs =
          (row # fst (fileRows rid t fs'), snd (fileRows rid t fs'))" by simp
      then show ?thesis
        using res it' Some f f1' repo by (simp add: delivers_def thenRows_def)
    next
      case (Inl e)
      with rows have fr: "fileRows rid t fs = ([], e)" by simp
      show ?thesis
      proof (cases "e = EOF")
        case False
        with Inl nxt Some f1 have "res = Inl e"
          by (subst (asm) treeEntriesByHashIter_Next.simps) auto
        with False fr Some f show ?thesis by (simp add: delivers_def)
      next
        case True
        with Inl nxt Some f1
        have "treeEntriesByHashIter_Next (TreeEntriesByHashIter hashes pos repo None) = (res, it')"
          by (subst (asm) treeEntriesByHashIter_Next.simps) auto
        moreover have "\<not> (length hashes \<le> pos \<and> fi = None)" using Some by simp
        ultimately have "delivers res (byHash_pending r (TreeEntriesByHashIter hashes pos repo None))
            (byHash_pending r it') \<and> (\<forall>row. res = Inr row \<longrightarrow> byHash_bound r it')"
          using "1.IH"(3) [OF _ Some f1 [symmetric] Inl True bound] by blast
        with fr True Some f show ?thesis by simp
      qed
    qed
  next
    case None
    show ?thesis
    proof (cases "length hashes \<le> pos")
      case True
      with None nxt have "res = Inl EOF"
        by (subst (asm) treeEntriesByHashIter_Next.simps) auto
      with True None show ?thesis by (simp add: delivers_def)
    next
      case False
      then have dr: "drop pos hashes = hashes ! pos # drop (pos + 1) hashes"
        by (simp add: Cons_nth_drop_Suc)
      from False have cond: "\<not> (length hashes \<le> pos \<and> fi = None)" by simp
      show ?thesis
      proof (cases "TreeObject r (hashes ! pos)")
        case (Inl e)
        show ?thesis
        proof (cases "e = ErrObjectNotFound")
          case True
          with Inl None False nxt repo
          have "treeEntriesByHashIter_Next (TreeEntriesByHashIter hashes (pos + 1) repo None) =
              (res, it')"
            by (subst (asm) treeEntriesByHashIter_Next.simps) auto
          from "1.IH"(1) [OF cond None repo Inl True bound this]
          show ?thesis using None dr Inl True by simp
        next
          case nf: False
          with Inl None False nxt repo have "res = Inl e"
            by (subst (asm) treeEntriesByHashIter_Next.simps) auto
          with nf Inl None dr show ?thesis by (simp add: delivers_def)
        qed
      next
        case (Inr tree)
        note found = Inr
        obtain res1 f1 where f1: "fileIter_Next (FileIter (RepoID r) tree (Files tree)) = (res1, f1)"
          by (cases "fileIter_Next (FileIter (RepoID r) tree (Files tree))")
        from fileIter_Next_rows [OF f1] obtain fs' where
          f1': "f1 = FileIter (RepoID r) tree fs'" and
          rows: "case res1 of Inl e \<Rightarrow> fileRows (RepoID r) tree (Files tree) = ([], e)
            | Inr row \<Rightarrow> fileRows (RepoID r) tree (Files tree) =
                (row # fst (fileRows (RepoID r) tree fs'), snd (fileRows (RepoID r) tree fs'))"
          by blast
        show ?thesis
        proof (cases res1)
          case (Inr row)
          with found None False nxt f1 repo have res: "res = Inr row"
            and it': "it' = TreeEntriesByHashIter hashes (pos + 1) repo (Some f1)"
            by (subst (asm) treeEntriesByHashIter_Next.simps, auto)+
          from rows Inr have "fileRows (RepoID r) tree (Files tree) =
              (row # fst (fileRows (RepoID r) tree fs'), snd (fileRows (RepoID r) tree fs'))"
            by simp
          then show ?thesis
            using res it' None dr found f1' repo by (simp add: delivers_def thenRows_def)
        next
          case (Inl e)
          with rows have fr: "fileRows (RepoID r) tree (Files tree) = ([], e)" by simp
          show ?thesis
          proof (cases "e = EOF")
            case ne: False
            with Inl found None False nxt f1 repo have "res = Inl e"
              by (subst (asm) treeEntriesByHashIter_Next.simps) auto
            with ne fr None dr found show ?thesis by (simp add: delivers_def)
          next
            case True
            with Inl found None False nxt f1 repo
            have "treeEntriesByHashIter_Next (TreeEntriesByHashIter hashes (pos + 1) repo None) =
              (res, it')"
              by (subst (asm) treeEntriesByHashIter_Next.simps) auto
            from "1.IH"(2) [OF cond None repo found f1 [symmetric] Inl True bound this]
            show ?thesis using None dr found fr True by simp
          qed
        qed
      qed
    qed
  qed
qed

lemma byHash_stream:
  assumes "byHash_bound r it" "byHash_pending r it = (rows, e)"
  shows "(\<forall>k<length rows.
           fst (treeEntriesByHashIter_Next
             (((\<lambda>it. snd (treeEntriesByHashIter_Next it)) ^^ k) it)) = Inr (rows ! k)) \<and>
         fst (treeEntriesByHashIter_Next
           (((\<lambda>it. snd (treeEntriesByHashIter_Next it)) ^^ length rows) it)) = Inl e"
  using assms
proof (induction rows arbitrary: it)
  case Nil
  from byHash_Next_delivers [OF Nil(1), of "fst (treeEntriesByHashIter_Next it)"
      "snd (treeEntriesByHashIter_Next it)"] Nil(2)
  show ?case by (simp add: delivers_def)
next
  case (Cons row rows)
  let ?it' = "snd (treeEntriesByHashIter_Next it)"
  from byHash_Next_delivers [OF Cons.prems(1), of "fst (treeEntriesByHashIter_Next it)" ?it']
    Cons.prems(2)
  have head: "fst (treeEntriesByHashIter_Next it) = Inr row"
    and rest: "byHash_pending r ?it' = (rows, e)" and bound: "byHash_bound r ?it'"
    by (simp_all add: delivers_def)
  note IH = Cons.IH [OF bound rest]
  have "fst (treeEntriesByHashIter_Next
             (((\<lambda>it. snd (treeEntriesByHashIter_Next it)) ^^ k) it)) = Inr ((row # rows) ! k)"
    if "k < length (row # rows)" for k
  proof (cases k)
    case 0
    with head show ?thesis by simp
  next
    case (Suc j)
    with that have "j < length rows" by simp
    with IH Suc show ?thesis by (simp del: funpow.simps add: funpow_Suc_right)
  qed
  moreover have "fst (treeEntriesByHashIter_Next
      (((\<lambda>it. snd (treeEntriesByHashIter_Next it)) ^^ length (row # rows)) it)) = Inl e"
    using IH by (simp del: funpow.simps add: funpow_Suc_right)
  ultimately show ?case by blast
qed



subsection \<open>Schema and indexable column\<close>

text \<open>
  Claim C9. \<^verbatim>\<open>TreeEntriesSchema\<close> has exactly the five columns
  \<^verbatim>\<open>repository_id\<close>, \<^verbatim>\<open>tree_hash\<close>, \<^verbatim>\<open>blob_hash\<close>, \<^verbatim>\<open>tree_entry_mode\<close> and
  \<^verbatim>\<open>tree_entry_name\<close>, in this order; each is not nullable and has the table's name
  as its source, so the schema-source rule accepts the table; and the list of indexable
  columns the table hands to \<^verbatim>\<open>rowIterWithSelectors\<close> is \<^verbatim>\<open>tree_hash\<close> alone.
\<close>

theorem TreeEntriesSchema_columns:
  "map colName (TreeEntriesSchema tn) =
     [''repository_id'', ''tree_hash'', ''blob_hash'', ''tree_entry_mode'', ''tree_entry_name''] \<and>
   (\<forall>c \<in> set (TreeEntriesSchema tn). \<not> Nullable c \<and> Source c = tn) \<and>
   validateSchemaSource (treeEntriesTable tn) = None \<and>
   WithProjectAndFilters (\<lambda>sch name fs columns f. Inr columns) tv tn projection filters =
     Inr [''tree_hash'']"
  by (simp add: TreeEntriesSchema_def WithProjectAndFilters_def treeEntriesTable_def validateSchema_def)

text \<open>The second column of the schema of a table named \<^verbatim>\<open>tree_entries\<close>.\<close>

theorem TreeEntriesSchema_columns_witness:
  "TreeEntriesSchema ''tree_entries'' ! 1 \<in> set (TreeEntriesSchema ''tree_entries'') \<and>
   colName (TreeEntriesSchema ''tree_entries'' ! 1) = ''tree_hash'' \<and>
   \<not> Nullable (TreeEntriesSchema ''tree_entries'' ! 1) \<and>
   Source (TreeEntriesSchema ''tree_entries'' ! 1) = ''tree_entries''"
proof -
  have m: "TreeEntriesSchema ''tree_entries'' ! 1 \<in> set (TreeEntriesSchema ''tree_entries'')"
    by (simp add: TreeEntriesSchema_def)
  have n: "colName (TreeEntriesSchema ''tree_entries'' ! 1) = ''tree_hash''"
    by (simp add: TreeEntriesSchema_def)
  from TreeEntriesSchema_columns [of "''tree_entries''"] m
  have "\<not> Nullable (TreeEntriesSchema ''tree_entries'' ! 1) \<and>
        Source (TreeEntriesSchema ''tree_entries'' ! 1) = ''tree_entries''"
    by blast
  with m n show ?thesis by simp
qed

subsection \<open>The choice of the iterator\<close>




subsection \<open>A fresh iterator for every repository\<close>

lemma treeEntriesByHashIter_Next_hashes:
  "\<exists>pos' fi'. snd (treeEntriesByHashIter_Next (TreeEntriesByHashIter hashes pos repo fi)) =
      TreeEntriesByHashIter hashes pos' repo fi'"
proof (induction "TreeEntriesByHashIter hashes pos repo fi" arbitrary: pos fi
    rule: treeEntriesByHashIter_Next.induct)
  case 1
  show ?case
    apply (subst treeEntriesByHashIter_Next.simps)
    using 1 apply (auto split: option.splits sum.splits prod.splits)
    done
qed

lemma treeEntriesByHashIter_advance_hashes:
  "\<exists>pos' fi'. ((\<lambda>it. snd (treeEntriesByHashIter_Next it)) ^^ n)
      (TreeEntriesByHashIter hashes pos repo fi) = TreeEntriesByHashIter hashes pos' repo fi'"
proof (induction n)
  case 0
  show ?case by simp
next
  case (Suc n)
  then obtain pos' fi' where "((\<lambda>it. snd (treeEntriesByHashIter_Next it)) ^^ n)
      (TreeEntriesByHashIter hashes pos repo fi) = TreeEntriesByHashIter hashes pos' repo fi'"
    by blast
  then show ?case using treeEntriesByHashIter_Next_hashes [of hashes pos' repo fi'] by simp
qed

text \<open>
  Claim C10. \<^verbatim>\<open>NewIterator\<close> of a by-hash iterator returns an iterator with the same
  hashes, position zero, the given repository and no open file iterator, whatever the
  position and the file iterator of the iterator it is called on; and this is so after
  any number \<open>n\<close> of calls of \<^verbatim>\<open>Next\<close> on that iterator. The iterator it returns
  delivers, call after call, the results of scanning the complete hash list in
  \<open>repo\<close> from its first hash: the \<open>k\<close>-th row of \<open>scanHashes repo hashes\<close> at the
  \<open>k\<close>-th call, and the error that ends that scan once its rows are used up.
\<close>

theorem treeEntriesByHashIter_NewIterator_fresh:
  "treeEntriesByHashIter_NewIterator (TreeEntriesByHashIter hashes pos r fi) repo =
     Inr (TreeEntriesByHashIter hashes 0 (Some repo) None) \<and>
   treeEntriesByHashIter_NewIterator
     (((\<lambda>it. snd (treeEntriesByHashIter_Next it)) ^^ n) (TreeEntriesByHashIter hashes pos r fi))
     repo = Inr (TreeEntriesByHashIter hashes 0 (Some repo) None) \<and>
   (k < length (fst (scanHashes repo hashes)) \<longrightarrow>
      fst (treeEntriesByHashIter_Next
        (((\<lambda>it. snd (treeEntriesByHashIter_Next it)) ^^ k)
           (TreeEntriesByHashIter hashes 0 (Some repo) None))) =
      Inr (fst (scanHashes repo hashes) ! k)) \<and>
   fst (treeEntriesByHashIter_Next
     (((\<lambda>it. snd (treeEntriesByHashIter_Next it)) ^^ length (fst (scanHashes repo hashes)))
        (TreeEntriesByHashIter hashes 0 (Some repo) None))) =
   Inl (snd (scanHashes repo hashes))"
proof -
  obtain pos' fi' where "((\<lambda>it. snd (treeEntriesByHashIter_Next it)) ^^ n)
      (TreeEntriesByHashIter hashes pos r fi) = TreeEntriesByHashIter hashes pos' r fi'"
    using treeEntriesByHashIter_advance_hashes by blast
  then have new: "treeEntriesByHashIter_NewIterator
     (((\<lambda>it. snd (treeEntriesByHashIter_Next it)) ^^ n) (TreeEntriesByHashIter hashes pos r fi))
     repo = Inr (TreeEntriesByHashIter hashes 0 (Some repo) None)"
    by simp
  have "byHash_bound repo (TreeEntriesByHashIter hashes 0 (Some repo) None)" by simp
  moreover have "byHash_pending repo (TreeEntriesByHashIter hashes 0 (Some repo) None) =
      (fst (scanHashes repo hashes), snd (scanHashes repo hashes))"
    by simp
  ultimately have "(\<forall>k<length (fst (scanHashes repo hashes)).
           fst (treeEntriesByHashIter_Next
             (((\<lambda>it. snd (treeEntriesByHashIter_Next it)) ^^ k)
                (TreeEntriesByHashIter hashes 0 (Some repo) None))) =
           Inr (fst (scanHashes repo hashes) ! k)) \<and>
         fst (treeEntriesByHashIter_Next
           (((\<lambda>it. snd (treeEntriesByHashIter_Next it)) ^^ length (fst (scanHashes repo hashes)))
              (TreeEntriesByHashIter hashes 0 (Some repo) None))) =
         Inl (snd (scanHashes repo hashes))"
    by (rule byHash_stream)
  with new show ?thesis by simp
qed

text \<open>
  An iterator that has walked the example repository to its end, asked for an iterator
  for a second repository: the second row and the end of the new iterator's stream.
\<close>

theorem treeEntriesByHashIter_NewIterator_fresh_witness:
  "treeEntriesByHashIter_NewIterator
     (TreeEntriesByHashIter [missingHash, exampleTreeHash] 2 (Some exampleRepository)
        (Some (FileIter ''repo1'' exampleTree []))) secondRepository =
     Inr (TreeEntriesByHashIter [missingHash, exampleTreeHash] 0 (Some secondRepository) None) \<and>
   scanHashes secondRepository [missingHash, exampleTreeHash] =
     ([[''repo2'', exampleTreeHash, ''00000000000000000000000000000000000000e1'',
        ''100644'', ''README.md''],
       [''repo2'', exampleTreeHash, ''00000000000000000000000000000000000000e2'',
        ''100755'', ''bin/run'']], EOF) \<and>
   fst (treeEntriesByHashIter_Next
     (((\<lambda>it. snd (treeEntriesByHashIter_Next it)) ^^ Suc 0)
        (TreeEntriesByHashIter [missingHash, exampleTreeHash] 0 (Some secondRepository) None))) =
     Inr [''repo2'', exampleTreeHash, ''00000000000000000000000000000000000000e2'',
          ''100755'', ''bin/run''] \<and>
   fst (treeEntriesByHashIter_Next
     (((\<lambda>it. snd (treeEntriesByHashIter_Next it)) ^^ Suc (Suc 0))
        (TreeEntriesByHashIter [missingHash, exampleTreeHash] 0 (Some secondRepository) None))) =
     Inl EOF"
proof -
  have octal: "FormatInt8 33188 = ''100644''" "FormatInt8 33261 = ''100755''"
    by (simp_all add: FormatInt8_def formatOctal.simps octalDigit_def)
  have scan: "scanHashes secondRepository [missingHash, exampleTreeHash] =
     ([[''repo2'', exampleTreeHash, ''00000000000000000000000000000000000000e1'',
        ''100644'', ''README.md''],
       [''repo2'', exampleTreeHash, ''00000000000000000000000000000000000000e2'',
        ''100755'', ''bin/run'']], EOF)"
    by (simp add: secondRepository_def missingHash_def unreadableHash_def exampleTreeHash_def
        brokenTreeHash_def exampleTree_def exampleRepository_def thenRows_def fileToRow_def octal)
  note fresh = treeEntriesByHashIter_NewIterator_fresh
    [of "[missingHash, exampleTreeHash]" 2 "Some exampleRepository"
      "Some (FileIter ''repo1'' exampleTree [])" secondRepository 0 "Suc 0"]
  from fresh have new: "treeEntriesByHashIter_NewIterator
     (TreeEntriesByHashIter [missingHash, exampleTreeHash] 2 (Some exampleRepository)
        (Some (FileIter ''repo1'' exampleTree []))) secondRepository =
     Inr (TreeEntriesByHashIter [missingHash, exampleTreeHash] 0 (Some secondRepository) None)"
    by blast
  from fresh scan have second: "fst (treeEntriesByHashIter_Next
     (((\<lambda>it. snd (treeEntriesByHashIter_Next it)) ^^ Suc 0)
        (TreeEntriesByHashIter [missingHash, exampleTreeHash] 0 (Some secondRepository) None))) =
     Inr [''repo2'', exampleTreeHash, ''00000000000000000000000000000000000000e2'',
          ''100755'', ''bin/run'']"
    by simp
  from fresh scan have last: "fst (treeEntriesByHashIter_Next
     (((\<lambda>it. snd (treeEntriesByHashIter_Next it)) ^^ Suc (Suc 0))
        (TreeEntriesByHashIter [missingHash, exampleTreeHash] 0 (Some secondRepository) None))) =
     Inl EOF"
    by simp
  from new scan second last show ?thesis by blast
qed

subsection \<open>Missing hashes and other errors\<close>

lemma byHash_Next_not_found:
  assumes "pos < length hashes" "TreeObject r (hashes ! pos) = Inl ErrObjectNotFound"
  shows "treeEntriesByHashIter_Next (TreeEntriesByHashIter hashes pos (Some r) None) =
         treeEntriesByHashIter_Next (TreeEntriesByHashIter hashes (pos + 1) (Some r) None)"
  using assms by (subst treeEntriesByHashIter_Next.simps) simp

lemma byHash_Next_skip_run:
  assumes "pos \<le> k" "k \<le> length hashes"
    "\<forall>j. pos \<le> j \<and> j < k \<longrightarrow> TreeObject r (hashes ! j) = Inl ErrObjectNotFound"
  shows "treeEntriesByHashIter_Next (TreeEntriesByHashIter hashes pos (Some r) None) =
         treeEntriesByHashIter_Next (TreeEntriesByHashIter hashes k (Some r) None)"
  using assms
proof (induction "k - pos" arbitrary: pos)
  case 0
  then show ?case by simp
next
  case (Suc d)
  then have lt: "pos < k" by simp
  with Suc.prems have "pos < length hashes" "TreeObject r (hashes ! pos) = Inl ErrObjectNotFound"
    by auto
  then have "treeEntriesByHashIter_Next (TreeEntriesByHashIter hashes pos (Some r) None) =
         treeEntriesByHashIter_Next (TreeEntriesByHashIter hashes (pos + 1) (Some r) None)"
    by (rule byHash_Next_not_found)
  also have "\<dots> = treeEntriesByHashIter_Next (TreeEntriesByHashIter hashes k (Some r) None)"
    using Suc.hyps(2) Suc.prems lt by (intro Suc.hyps(1)) auto
  finally show ?case .
qed

lemma byHash_Next_exhausted:
  "treeEntriesByHashIter_Next (TreeEntriesByHashIter hashes (length hashes) repo None) =
     (Inl EOF, TreeEntriesByHashIter hashes (length hashes) repo None)"
  by (subst treeEntriesByHashIter_Next.simps) simp

text \<open>
  Claim C2. In a by-hash iterator with no open file iterator, bound to repository \<open>r\<close>:
  when the hashes from \<open>pos\<close> up to \<open>k\<close> all resolve to \<^verbatim>\<open>ErrObjectNotFound\<close>,
  \<^verbatim>\<open>Next\<close> does what it does at position \<open>k\<close>, so these hashes yield no row and no
  error; when all remaining hashes do, \<^verbatim>\<open>Next\<close> returns \<^verbatim>\<open>io.EOF\<close>. When the hash
  at \<open>pos\<close> resolves to any other error, \<^verbatim>\<open>Next\<close> returns that error at once; and
  an error of the file walk other than \<^verbatim>\<open>io.EOF\<close>, in a tree just opened or in the
  open file iterator, is returned at once as well.
\<close>

theorem treeEntriesByHashIter_Next_errors:
  "(pos \<le> k \<and> k \<le> length hashes \<and>
    (\<forall>j. pos \<le> j \<and> j < k \<longrightarrow> TreeObject r (hashes ! j) = Inl ErrObjectNotFound) \<longrightarrow>
      treeEntriesByHashIter_Next (TreeEntriesByHashIter hashes pos (Some r) None) =
      treeEntriesByHashIter_Next (TreeEntriesByHashIter hashes k (Some r) None)) \<and>
   (pos \<le> length hashes \<and>
    (\<forall>j. pos \<le> j \<and> j < length hashes \<longrightarrow> TreeObject r (hashes ! j) = Inl ErrObjectNotFound) \<longrightarrow>
      treeEntriesByHashIter_Next (TreeEntriesByHashIter hashes pos (Some r) None) =
      (Inl EOF, TreeEntriesByHashIter hashes (length hashes) (Some r) None)) \<and>
   (pos < length hashes \<and> TreeObject r (hashes ! pos) = Inl err \<and> err \<noteq> ErrObjectNotFound \<longrightarrow>
      treeEntriesByHashIter_Next (TreeEntriesByHashIter hashes pos (Some r) None) =
      (Inl err, TreeEntriesByHashIter hashes (pos + 1) (Some r) None)) \<and>
   (pos < length hashes \<and> TreeObject r (hashes ! pos) = Inr tree \<and>
    fileIter_Next (FileIter (RepoID r) tree (Files tree)) = (Inl err, f') \<and> err \<noteq> EOF \<longrightarrow>
      treeEntriesByHashIter_Next (TreeEntriesByHashIter hashes pos (Some r) None) =
      (Inl err, TreeEntriesByHashIter hashes (pos + 1) (Some r) (Some f'))) \<and>
   (fileIter_Next f = (Inl err, f') \<and> err \<noteq> EOF \<longrightarrow>
      treeEntriesByHashIter_Next (TreeEntriesByHashIter hashes pos repo (Some f)) =
      (Inl err, TreeEntriesByHashIter hashes pos repo (Some f')))"
proof -
  have skip: "pos \<le> k \<and> k \<le> length hashes \<and>
    (\<forall>j. pos \<le> j \<and> j < k \<longrightarrow> TreeObject r (hashes ! j) = Inl ErrObjectNotFound) \<longrightarrow>
      treeEntriesByHashIter_Next (TreeEntriesByHashIter hashes pos (Some r) None) =
      treeEntriesByHashIter_Next (TreeEntriesByHashIter hashes k (Some r) None)"
    using byHash_Next_skip_run [of pos k hashes r] by blast
  have all: "pos \<le> length hashes \<and>
    (\<forall>j. pos \<le> j \<and> j < length hashes \<longrightarrow> TreeObject r (hashes ! j) = Inl ErrObjectNotFound) \<longrightarrow>
      treeEntriesByHashIter_Next (TreeEntriesByHashIter hashes pos (Some r) None) =
      (Inl EOF, TreeEntriesByHashIter hashes (length hashes) (Some r) None)"
    using byHash_Next_skip_run [of pos "length hashes" hashes r]
      byHash_Next_exhausted [of hashes "Some r"] by auto
  have res: "pos < length hashes \<and> TreeObject r (hashes ! pos) = Inl err \<and>
      err \<noteq> ErrObjectNotFound \<longrightarrow>
      treeEntriesByHashIter_Next (TreeEntriesByHashIter hashes pos (Some r) None) =
      (Inl err, TreeEntriesByHashIter hashes (pos + 1) (Some r) None)"
    by (subst treeEntriesByHashIter_Next.simps) simp
  have opened: "pos < length hashes \<and> TreeObject r (hashes ! pos) = Inr tree \<and>
    fileIter_Next (FileIter (RepoID r) tree (Files tree)) = (Inl err, f') \<and> err \<noteq> EOF \<longrightarrow>
      treeEntriesByHashIter_Next (TreeEntriesByHashIter hashes pos (Some r) None) =
      (Inl err, TreeEntriesByHashIter hashes (pos + 1) (Some r) (Some f'))"
    by (subst treeEntriesByHashIter_Next.simps) simp
  have walk: "fileIter_Next f = (Inl err, f') \<and> err \<noteq> EOF \<longrightarrow>
      treeEntriesByHashIter_Next (TreeEntriesByHashIter hashes pos repo (Some f)) =
      (Inl err, TreeEntriesByHashIter hashes pos repo (Some f'))"
    by (subst treeEntriesByHashIter_Next.simps) simp
  from skip all res opened walk show ?thesis by blast
qed

text \<open>
  \<^verbatim>\<open>Next\<close> in the example repository: over two missing hashes, over a missing hash
  followed by one that cannot be read, and over the hash of the tree whose walk fails.
\<close>

theorem treeEntriesByHashIter_Next_errors_witness:
  "treeEntriesByHashIter_Next
     (TreeEntriesByHashIter [missingHash, otherMissingHash] 0 (Some exampleRepository) None) =
     (Inl EOF,
      TreeEntriesByHashIter [missingHash, otherMissingHash] 2 (Some exampleRepository) None) \<and>
   treeEntriesByHashIter_Next
     (TreeEntriesByHashIter [missingHash, unreadableHash, exampleTreeHash] 0
        (Some exampleRepository) None) =
     (Inl (OtherError ''read failed''),
      TreeEntriesByHashIter [missingHash, unreadableHash, exampleTreeHash] 2
        (Some exampleRepository) None) \<and>
   treeEntriesByHashIter_Next
     (TreeEntriesByHashIter [brokenTreeHash, exampleTreeHash] 0 (Some exampleRepository) None) =
     (Inl (OtherError ''corrupt object''),
      TreeEntriesByHashIter [brokenTreeHash, exampleTreeHash] 1 (Some exampleRepository)
        (Some (FileIter ''repo1'' brokenTree [])))"
proof -
  have a: "\<forall>j. 0 \<le> j \<and> j < length [missingHash, otherMissingHash] \<longrightarrow>
      TreeObject exampleRepository ([missingHash, otherMissingHash] ! j) = Inl ErrObjectNotFound"
    by (auto simp: less_Suc_eq missingHash_def otherMissingHash_def unreadableHash_def exampleTreeHash_def
      brokenTreeHash_def brokenTree_def exampleRepository_def)
  have b: "\<forall>j. 0 \<le> j \<and> j < 1 \<longrightarrow>
      TreeObject exampleRepository ([missingHash, unreadableHash, exampleTreeHash] ! j) =
        Inl ErrObjectNotFound"
    by (auto simp: missingHash_def otherMissingHash_def unreadableHash_def exampleTreeHash_def
      brokenTreeHash_def brokenTree_def exampleRepository_def)
  have c: "TreeObject exampleRepository ([missingHash, unreadableHash, exampleTreeHash] ! 1) =
      Inl (OtherError ''read failed'')"
    by (simp add: missingHash_def otherMissingHash_def unreadableHash_def exampleTreeHash_def
      brokenTreeHash_def brokenTree_def exampleRepository_def)
  have d: "TreeObject exampleRepository ([brokenTreeHash, exampleTreeHash] ! 0) = Inr brokenTree"
    by (simp add: missingHash_def otherMissingHash_def unreadableHash_def exampleTreeHash_def
      brokenTreeHash_def brokenTree_def exampleRepository_def)
  have e: "fileIter_Next (FileIter (RepoID exampleRepository) brokenTree (Files brokenTree)) =
      (Inl (OtherError ''corrupt object''), FileIter ''repo1'' brokenTree [])"
    by (simp add: missingHash_def otherMissingHash_def unreadableHash_def exampleTreeHash_def
      brokenTreeHash_def brokenTree_def exampleRepository_def)
  from a treeEntriesByHashIter_Next_errors
    [of 0 0 "[missingHash, otherMissingHash]" exampleRepository]
  have 1: "treeEntriesByHashIter_Next
     (TreeEntriesByHashIter [missingHash, otherMissingHash] 0 (Some exampleRepository) None) =
     (Inl EOF,
      TreeEntriesByHashIter [missingHash, otherMissingHash] 2 (Some exampleRepository) None)"
    by simp
  from b c treeEntriesByHashIter_Next_errors
    [of 0 1 "[missingHash, unreadableHash, exampleTreeHash]" exampleRepository]
    treeEntriesByHashIter_Next_errors
    [of 1 1 "[missingHash, unreadableHash, exampleTreeHash]" exampleRepository
      "OtherError ''read failed''"]
  have 2: "treeEntriesByHashIter_Next
     (TreeEntriesByHashIter [missingHash, unreadableHash, exampleTreeHash] 0
        (Some exampleRepository) None) =
     (Inl (OtherError ''read failed''),
      TreeEntriesByHashIter [missingHash, unreadableHash, exampleTreeHash] 2
        (Some exampleRepository) None)"
    by simp
  from d e treeEntriesByHashIter_Next_errors
    [of 0 0 "[brokenTreeHash, exampleTreeHash]" exampleRepository
      "OtherError ''corrupt object''" brokenTree "FileIter ''repo1'' brokenTree []"]
  have 3: "treeEntriesByHashIter_Next
     (TreeEntriesByHashIter [brokenTreeHash, exampleTreeHash] 0 (Some exampleRepository) None) =
     (Inl (OtherError ''corrupt object''),
      TreeEntriesByHashIter [brokenTreeHash, exampleTreeHash] 1 (Some exampleRepository)
        (Some (FileIter ''repo1'' brokenTree [])))"
    by simp
  from 1 2 3 show ?thesis by simp
qed

subsection \<open>The shape of a row\<close>

lemma octalDigit_value: "d < 8 \<Longrightarrow> of_char (octalDigit d) - 48 = d"
proof -
  assume "d < 8"
  then consider "d = 0" | "d = 1" | "d = 2" | "d = 3" | "d = 4" | "d = 5" | "d = 6" | "d = 7"
    by linarith
  then show ?thesis by cases (simp_all add: octalDigit_def)
qed

lemma octalDigit_range: "d < 8 \<Longrightarrow> octalDigit d \<in> set ''01234567''"
  unfolding octalDigit_def by (rule nth_mem) simp

lemma formatOctal_value: "octalValue (formatOctal n) = n"
proof (induction n rule: formatOctal.induct)
  case (1 u)
  show ?case
  proof (cases "u < 8")
    case True
    then show ?thesis
      by (subst formatOctal.simps) (simp add: octalValue_def octalDigit_value)
  next
    case False
    with 1 have IH: "octalValue (formatOctal (u div 8)) = u div 8" by simp
    have "octalValue (formatOctal u) =
        8 * octalValue (formatOctal (u div 8)) + (of_char (octalDigit (u mod 8)) - 48)"
      using False by (subst formatOctal.simps) (simp add: octalValue_def)
    also have "\<dots> = 8 * (u div 8) + u mod 8"
      by (simp add: IH octalDigit_value)
    finally show ?thesis by simp
  qed
qed

lemma formatOctal_digits: "set (formatOctal n) \<subseteq> set ''01234567''"
proof (induction n rule: formatOctal.induct)
  case (1 u)
  show ?case
  proof (cases "u < 8")
    case True
    then show ?thesis
      using octalDigit_range [of u] by (subst formatOctal.simps) simp
  next
    case False
    with 1 have "set (formatOctal (u div 8)) \<subseteq> set ''01234567''" by simp
    moreover have "octalDigit (u mod 8) \<in> set ''01234567''"
      by (rule octalDigit_range) simp
    ultimately show ?thesis using False by (subst formatOctal.simps) simp
  qed
qed

lemma FormatInt8_mode:
  "octalValue (FormatInt8 (uint (m :: 32 word))) = unat m \<and>
   set (FormatInt8 (uint m)) \<subseteq> set ''01234567''"
  using formatOctal_digits [of "unat m"]
  by (simp add: FormatInt8_def formatOctal_value)

lemma fileIter_Next_ok:
  assumes "fileIter_ok rid known (Some fit)" "fileIter_Next fit = (res, fit')"
  shows "fileIter_ok rid known (Some fit') \<and> (\<forall>row. res = Inr row \<longrightarrow> row_of rid known row)"
proof -
  obtain rid' t fs where fit: "fit = FileIter rid' t fs" by (cases fit)
  with assms(1) have ok: "rid' = rid" "known t" "set fs \<subseteq> set (Files t)"
    by (simp_all add: fileIter_ok_def)
  show ?thesis
  proof (cases fs)
    case Nil
    with fit assms(2) ok show ?thesis by (auto simp: fileIter_ok_def)
  next
    case (Cons x xs)
    show ?thesis
    proof (cases x)
      case (Inl e)
      with Cons fit assms(2) ok show ?thesis by (auto simp: fileIter_ok_def)
    next
      case (Inr f)
      with Cons fit assms(2) ok show ?thesis by (auto simp: fileIter_ok_def row_of_def)
    qed
  qed
qed

lemma fileIter_ok_None: "fileIter_ok rid known None"
  by (simp add: fileIter_ok_def)

lemma byHash_Next_ok:
  "byHash_inv r it \<Longrightarrow> treeEntriesByHashIter_Next it = (res, it') \<Longrightarrow>
   byHash_inv r it' \<and> byHash_hashes it' = byHash_hashes it \<and>
   (\<forall>row. res = Inr row \<longrightarrow> row_of (RepoID r) (byHash_known (byHash_hashes it) r) row)"
proof (induction it arbitrary: res it' rule: treeEntriesByHashIter_Next.induct)
  case (1 hashes pos repo fi)
  from "1.prems"(1) have repo: "repo = Some r"
    and ok: "fileIter_ok (RepoID r) (byHash_known hashes r) fi" by simp_all
  note nxt = "1.prems"(2)
  have none_inv: "\<And>p. byHash_inv r (TreeEntriesByHashIter hashes p repo None)"
    using repo by (simp add: fileIter_ok_None)
  show ?case
  proof (cases fi)
    case (Some f)
    obtain res1 f1 where f1: "fileIter_Next f = (res1, f1)" by (cases "fileIter_Next f")
    from ok Some have "fileIter_ok (RepoID r) (byHash_known hashes r) (Some f)" by simp
    from fileIter_Next_ok [OF this f1]
    have ok1: "fileIter_ok (RepoID r) (byHash_known hashes r) (Some f1)"
      and rows: "\<forall>row. res1 = Inr row \<longrightarrow> row_of (RepoID r) (byHash_known hashes r) row"
      by simp_all
    show ?thesis
    proof (cases res1)
      case (Inr row)
      with nxt Some f1 ok1 rows repo show ?thesis
        by (subst (asm) treeEntriesByHashIter_Next.simps) auto
    next
      case (Inl e)
      show ?thesis
      proof (cases "e = EOF")
        case False
        with Inl nxt Some f1 ok1 repo show ?thesis
          by (subst (asm) treeEntriesByHashIter_Next.simps) auto
      next
        case True
        with Inl nxt Some f1
        have "treeEntriesByHashIter_Next (TreeEntriesByHashIter hashes pos repo None) = (res, it')"
          by (subst (asm) treeEntriesByHashIter_Next.simps) auto
        moreover have "\<not> (length hashes \<le> pos \<and> fi = None)" using Some by simp
        ultimately show ?thesis
          using "1.IH"(3) [of f "Inl e" f1 e res it'] Some f1 Inl True none_inv by simp
      qed
    qed
  next
    case None
    show ?thesis
    proof (cases "length hashes \<le> pos")
      case True
      with None nxt repo show ?thesis
        by (subst (asm) treeEntriesByHashIter_Next.simps) (auto simp: fileIter_ok_None)
    next
      case False
      then have known: "hashes ! pos \<in> set hashes" by simp
      from False have cond: "\<not> (length hashes \<le> pos \<and> fi = None)" by simp
      show ?thesis
      proof (cases "TreeObject r (hashes ! pos)")
        case (Inl e)
        show ?thesis
        proof (cases "e = ErrObjectNotFound")
          case True
          with Inl None False nxt repo
          have "treeEntriesByHashIter_Next (TreeEntriesByHashIter hashes (pos + 1) repo None) =
              (res, it')"
            by (subst (asm) treeEntriesByHashIter_Next.simps) auto
          then show ?thesis
            using "1.IH"(1) [of r e res it'] cond None repo Inl True none_inv by simp
        next
          case nf: False
          with Inl None False nxt repo show ?thesis
            by (subst (asm) treeEntriesByHashIter_Next.simps) (auto simp: fileIter_ok_None)
        qed
      next
        case (Inr tree)
        note found = Inr
        with known have kt: "byHash_known hashes r tree" by (auto simp: byHash_known_def)
        obtain res1 f1 where f1: "fileIter_Next (FileIter (RepoID r) tree (Files tree)) = (res1, f1)"
          by (cases "fileIter_Next (FileIter (RepoID r) tree (Files tree))")
        from kt have "fileIter_ok (RepoID r) (byHash_known hashes r)
            (Some (FileIter (RepoID r) tree (Files tree)))"
          by (simp add: fileIter_ok_def)
        from fileIter_Next_ok [OF this f1]
        have ok1: "fileIter_ok (RepoID r) (byHash_known hashes r) (Some f1)"
          and rows: "\<forall>row. res1 = Inr row \<longrightarrow> row_of (RepoID r) (byHash_known hashes r) row"
          by simp_all
        show ?thesis
        proof (cases res1)
          case (Inr row)
          with found None False nxt f1 ok1 rows repo show ?thesis
            by (subst (asm) treeEntriesByHashIter_Next.simps) auto
        next
          case (Inl e)
          show ?thesis
          proof (cases "e = EOF")
            case ne: False
            with Inl found None False nxt f1 ok1 repo show ?thesis
              by (subst (asm) treeEntriesByHashIter_Next.simps) auto
          next
            case True
            with Inl found None False nxt f1 repo
            have "treeEntriesByHashIter_Next (TreeEntriesByHashIter hashes (pos + 1) repo None) =
              (res, it')"
              by (subst (asm) treeEntriesByHashIter_Next.simps) auto
            then show ?thesis
              using "1.IH"(2) [of r tree "Inl e" f1 e res it'] cond None repo found f1 Inl True
                none_inv by simp
          qed
        qed
      qed
    qed
  qed
qed

lemma objectIterNext_subset:
  "objectIterNext rs = (x, rs') \<Longrightarrow> set rs' \<subseteq> set rs \<and> (\<forall>t. x = Inr t \<longrightarrow> Inr t \<in> set rs)"
  by (cases rs) auto

lemma treeEntry_Next_ok:
  "treeEntry_inv r trees it \<Longrightarrow> treeEntryIter_Next it = (res, it') \<Longrightarrow>
   treeEntry_inv r trees it' \<and>
   (\<forall>row. res = Inr row \<longrightarrow> row_of (RepoID r) (\<lambda>t. Inr t \<in> set trees) row)"
proof (induction it arbitrary: res it' rule: treeEntryIter_Next.induct)
  case (1 i fi repoID)
  from "1.prems"(1) obtain rest where rid: "repoID = RepoID r"
    and i: "i = Some rest" and rest: "set rest \<subseteq> set trees"
    and ok: "fileIter_ok (RepoID r) (\<lambda>t. Inr t \<in> set trees) fi" by auto
  note nxt = "1.prems"(2)
  have none_inv: "\<And>rs. set rs \<subseteq> set trees \<Longrightarrow>
      treeEntry_inv r trees (TreeEntryIter (Some rs) None repoID)"
    using rid by (simp add: fileIter_ok_None)
  show ?case
  proof (cases fi)
    case (Some f)
    obtain res1 f1 where f1: "fileIter_Next f = (res1, f1)" by (cases "fileIter_Next f")
    from ok Some have "fileIter_ok (RepoID r) (\<lambda>t. Inr t \<in> set trees) (Some f)" by simp
    from fileIter_Next_ok [OF this f1]
    have ok1: "fileIter_ok (RepoID r) (\<lambda>t. Inr t \<in> set trees) (Some f1)"
      and rows: "\<forall>row. res1 = Inr row \<longrightarrow> row_of (RepoID r) (\<lambda>t. Inr t \<in> set trees) row"
      by simp_all
    show ?thesis
    proof (cases res1)
      case (Inr row)
      with nxt Some f1 ok1 rows rid i rest show ?thesis
        by (subst (asm) treeEntryIter_Next.simps) auto
    next
      case (Inl e)
      show ?thesis
      proof (cases "e = EOF")
        case False
        with Inl nxt Some f1 ok1 rid i rest show ?thesis
          by (subst (asm) treeEntryIter_Next.simps) auto
      next
        case True
        with Inl nxt Some f1
        have "treeEntryIter_Next (TreeEntryIter i None repoID) = (res, it')"
          by (subst (asm) treeEntryIter_Next.simps) auto
        then show ?thesis
          using "1.IH"(2) [of f "Inl e" f1 e res it'] Some f1 Inl True none_inv [OF rest] i
          by simp
      qed
    qed
  next
    case None
    obtain x rest' where step: "objectIterNext rest = (x, rest')"
      by (cases "objectIterNext rest")
    from objectIterNext_subset [OF step] rest
    have rest': "set rest' \<subseteq> set trees" and mem: "\<forall>t. x = Inr t \<longrightarrow> Inr t \<in> set trees"
      by auto
    show ?thesis
    proof (cases x)
      case (Inl e)
      with None i step nxt none_inv [OF rest'] show ?thesis
        by (subst (asm) treeEntryIter_Next.simps) auto
    next
      case (Inr tree)
      note found = Inr
      with mem have kt: "Inr tree \<in> set trees" by simp
      obtain res1 f1 where f1: "fileIter_Next (FileIter repoID tree (Files tree)) = (res1, f1)"
        by (cases "fileIter_Next (FileIter repoID tree (Files tree))")
      from kt rid have "fileIter_ok (RepoID r) (\<lambda>t. Inr t \<in> set trees)
          (Some (FileIter repoID tree (Files tree)))"
        by (simp add: fileIter_ok_def)
      from fileIter_Next_ok [OF this f1]
      have ok1: "fileIter_ok (RepoID r) (\<lambda>t. Inr t \<in> set trees) (Some f1)"
        and rows: "\<forall>row. res1 = Inr row \<longrightarrow> row_of (RepoID r) (\<lambda>t. Inr t \<in> set trees) row"
        by simp_all
      show ?thesis
      proof (cases res1)
        case (Inr row)
        with found None i step nxt f1 ok1 rows rid rest' show ?thesis
          by (subst (asm) treeEntryIter_Next.simps) auto
      next
        case (Inl e)
        show ?thesis
        proof (cases "e = EOF")
          case False
          with Inl found None i step nxt f1 ok1 rid rest' show ?thesis
            by (subst (asm) treeEntryIter_Next.simps) auto
        next
          case True
          with Inl found None i step nxt f1
          have "treeEntryIter_Next (TreeEntryIter (Some rest') None repoID) = (res, it')"
            by (subst (asm) treeEntryIter_Next.simps) auto
          from "1.IH"(1) [OF None i step [symmetric] found f1 [symmetric] Inl True
              none_inv [OF rest'] this]
          show ?thesis .
        qed
      qed
    qed
  qed
qed

lemma byHash_advance_inv:
  "byHash_inv r it \<Longrightarrow>
   byHash_inv r (((\<lambda>it. snd (treeEntriesByHashIter_Next it)) ^^ n) it) \<and>
   byHash_hashes (((\<lambda>it. snd (treeEntriesByHashIter_Next it)) ^^ n) it) = byHash_hashes it"
proof (induction n)
  case 0
  then show ?case by simp
next
  case (Suc n)
  let ?it = "((\<lambda>it. snd (treeEntriesByHashIter_Next it)) ^^ n) it"
  from Suc have inv: "byHash_inv r ?it" and hs: "byHash_hashes ?it = byHash_hashes it"
    by simp_all
  from byHash_Next_ok [OF inv, of "fst (treeEntriesByHashIter_Next ?it)"
      "snd (treeEntriesByHashIter_Next ?it)"] hs
  show ?case by simp
qed

lemma treeEntry_advance_inv:
  "treeEntry_inv r trees it \<Longrightarrow>
   treeEntry_inv r trees (((\<lambda>it. snd (treeEntryIter_Next it)) ^^ n) it)"
proof (induction n)
  case 0
  then show ?case by simp
next
  case (Suc n)
  let ?it = "((\<lambda>it. snd (treeEntryIter_Next it)) ^^ n) it"
  from Suc have inv: "treeEntry_inv r trees ?it" by simp
  from treeEntry_Next_ok [OF inv, of "fst (treeEntryIter_Next ?it)"
      "snd (treeEntryIter_Next ?it)"]
  show ?case by simp
qed

text \<open>
  Claim C4. \<^verbatim>\<open>fileToRow\<close> builds the five values repository id, tree hash, blob hash,
  mode and name, in this order, the mode being a string of octal digits whose value is
  the file's mode; \<^verbatim>\<open>fileIter.Next\<close> returns no other row. Every row a by-hash iterator
  returns, after any number \<open>n\<close> of earlier calls since \<^verbatim>\<open>NewIterator\<close> bound it to
  \<open>repo\<close>, is this row for \<open>repo\<close>'s id, a tree one of the hashes resolves to and a
  file of that tree; and every row a full-traversal iterator returns is this row for
  \<open>repo\<close>'s id, a tree of \<open>repo\<close> and a file of that tree.
\<close>

theorem fileToRow_shape:
  "fileToRow repoID t f = [repoID, ID t, Hash f, FormatInt8 (uint (Mode f)), Name f] \<and>
   octalValue (FormatInt8 (uint (Mode f))) = unat (Mode f) \<and>
   set (FormatInt8 (uint (Mode f))) \<subseteq> set ''01234567'' \<and>
   (fileIter_Next (FileIter repoID t fi) = (Inr row0, fit) \<longrightarrow>
      (\<exists>f. Inr f \<in> set fi \<and> row0 = [repoID, ID t, Hash f, FormatInt8 (uint (Mode f)), Name f])) \<and>
   (treeEntriesByHashIter_NewIterator proto repo = Inr it0 \<and>
    treeEntriesByHashIter_Next (((\<lambda>it. snd (treeEntriesByHashIter_Next it)) ^^ n) it0) =
      (Inr row, it1) \<longrightarrow>
      (\<exists>h \<in> set (byHash_hashes proto). \<exists>t f.
         TreeObject repo h = Inr t \<and> Inr f \<in> set (Files t) \<and>
         row = [RepoID repo, ID t, Hash f, FormatInt8 (uint (Mode f)), Name f])) \<and>
   (treeEntryIter_NewIterator proto' repo = Inr it0' \<and>
    treeEntryIter_Next (((\<lambda>it. snd (treeEntryIter_Next it)) ^^ m) it0') = (Inr row', it1') \<longrightarrow>
      (\<exists>trees t f.
         TreeObjects repo = Inr trees \<and> Inr t \<in> set trees \<and> Inr f \<in> set (Files t) \<and>
         row' = [RepoID repo, ID t, Hash f, FormatInt8 (uint (Mode f)), Name f]))"
proof -
  have shape: "fileToRow repoID t f = [repoID, ID t, Hash f, FormatInt8 (uint (Mode f)), Name f]"
    by (simp add: fileToRow_def)
  have octal: "octalValue (FormatInt8 (uint (Mode f))) = unat (Mode f)"
    using FormatInt8_mode by blast
  have digits: "set (FormatInt8 (uint (Mode f))) \<subseteq> set ''01234567''"
    using FormatInt8_mode by blast
  have leaf: "fileIter_Next (FileIter repoID t fi) = (Inr row0, fit) \<longrightarrow>
      (\<exists>f. Inr f \<in> set fi \<and> row0 = [repoID, ID t, Hash f, FormatInt8 (uint (Mode f)), Name f])"
    by (cases fi) (auto simp: fileToRow_def split: sum.splits)
  have byHash: "\<exists>h \<in> set (byHash_hashes proto). \<exists>t f.
         TreeObject repo h = Inr t \<and> Inr f \<in> set (Files t) \<and>
         row = [RepoID repo, ID t, Hash f, FormatInt8 (uint (Mode f)), Name f]"
    if new: "treeEntriesByHashIter_NewIterator proto repo = Inr it0"
      and nxt: "treeEntriesByHashIter_Next
        (((\<lambda>it. snd (treeEntriesByHashIter_Next it)) ^^ n) it0) = (Inr row, it1)"
  proof -
    obtain hashes pos r fi where proto: "proto = TreeEntriesByHashIter hashes pos r fi"
      by (cases proto)
    with new have it0: "it0 = TreeEntriesByHashIter hashes 0 (Some repo) None" by simp
    then have "byHash_inv repo it0" by (simp add: fileIter_ok_None)
    from byHash_advance_inv [OF this, of n]
    have inv: "byHash_inv repo (((\<lambda>it. snd (treeEntriesByHashIter_Next it)) ^^ n) it0)"
      and hs: "byHash_hashes (((\<lambda>it. snd (treeEntriesByHashIter_Next it)) ^^ n) it0) = hashes"
      using it0 by simp_all
    from byHash_Next_ok [OF inv nxt] hs
    have "row_of (RepoID repo) (byHash_known hashes repo) row" by simp
    then show ?thesis
      using proto by (auto simp: row_of_def byHash_known_def fileToRow_def)
  qed
  have full: "\<exists>trees t f.
         TreeObjects repo = Inr trees \<and> Inr t \<in> set trees \<and> Inr f \<in> set (Files t) \<and>
         row' = [RepoID repo, ID t, Hash f, FormatInt8 (uint (Mode f)), Name f]"
    if new: "treeEntryIter_NewIterator proto' repo = Inr it0'"
      and nxt: "treeEntryIter_Next (((\<lambda>it. snd (treeEntryIter_Next it)) ^^ m) it0') =
        (Inr row', it1')"
  proof -
    obtain i fi rid where proto: "proto' = TreeEntryIter i fi rid" by (cases proto')
    with new obtain trees where trees: "TreeObjects repo = Inr trees"
      and it0: "it0' = TreeEntryIter (Some trees) None (RepoID repo)"
      by (auto split: sum.splits)
    then have "treeEntry_inv repo trees it0'" by (simp add: fileIter_ok_None)
    from treeEntry_advance_inv [OF this, of m]
    have inv: "treeEntry_inv repo trees (((\<lambda>it. snd (treeEntryIter_Next it)) ^^ m) it0')" .
    from treeEntry_Next_ok [OF inv nxt]
    have "row_of (RepoID repo) (\<lambda>t. Inr t \<in> set trees) row'" by simp
    then show ?thesis
      using trees by (auto simp: row_of_def fileToRow_def)
  qed
  from shape octal digits leaf byHash full show ?thesis by blast
qed

text \<open>
  The second row of a by-hash scan of the example repository and the first row of its
  full traversal.
\<close>

theorem fileToRow_shape_witness:
  "treeEntriesByHashIter_NewIterator
     (TreeEntriesByHashIter [missingHash, exampleTreeHash] 0 None None) exampleRepository =
     Inr (TreeEntriesByHashIter [missingHash, exampleTreeHash] 0 (Some exampleRepository) None) \<and>
   treeEntriesByHashIter_Next
     (((\<lambda>it. snd (treeEntriesByHashIter_Next it)) ^^ Suc 0)
        (TreeEntriesByHashIter [missingHash, exampleTreeHash] 0 (Some exampleRepository) None)) =
     (Inr [''repo1'', exampleTreeHash, ''00000000000000000000000000000000000000e2'',
           ''100755'', ''bin/run''],
      TreeEntriesByHashIter [missingHash, exampleTreeHash] 2 (Some exampleRepository)
        (Some (FileIter ''repo1'' exampleTree []))) \<and>
   (\<exists>h \<in> set [missingHash, exampleTreeHash]. \<exists>t f.
      TreeObject exampleRepository h = Inr t \<and> Inr f \<in> set (Files t) \<and>
      [''repo1'', exampleTreeHash, ''00000000000000000000000000000000000000e2'',
       ''100755'', ''bin/run''] =
      [RepoID exampleRepository, ID t, Hash f, FormatInt8 (uint (Mode f)), Name f]) \<and>
   treeEntryIter_NewIterator (TreeEntryIter None None []) exampleRepository =
     Inr (TreeEntryIter (Some [Inr exampleTree, Inr brokenTree]) None ''repo1'') \<and>
   treeEntryIter_Next
     (((\<lambda>it. snd (treeEntryIter_Next it)) ^^ 0)
        (TreeEntryIter (Some [Inr exampleTree, Inr brokenTree]) None ''repo1'')) =
     (Inr [''repo1'', exampleTreeHash, ''00000000000000000000000000000000000000e1'',
           ''100644'', ''README.md''],
      TreeEntryIter (Some [Inr brokenTree]) (Some (FileIter ''repo1'' exampleTree
        [Inr \<lparr>Name = ''bin/run'', Mode = 33261,
              Hash = ''00000000000000000000000000000000000000e2''\<rparr>])) ''repo1'') \<and>
   (\<exists>trees t f.
      TreeObjects exampleRepository = Inr trees \<and> Inr t \<in> set trees \<and>
      Inr f \<in> set (Files t) \<and>
      [''repo1'', exampleTreeHash, ''00000000000000000000000000000000000000e1'',
       ''100644'', ''README.md''] =
      [RepoID exampleRepository, ID t, Hash f, FormatInt8 (uint (Mode f)), Name f])"
proof -
  have new: "treeEntriesByHashIter_NewIterator
     (TreeEntriesByHashIter [missingHash, exampleTreeHash] 0 None None) exampleRepository =
     Inr (TreeEntriesByHashIter [missingHash, exampleTreeHash] 0 (Some exampleRepository) None)"
    by simp
  have octal: "FormatInt8 33188 = ''100644''" "FormatInt8 33261 = ''100755''"
    by (simp_all add: FormatInt8_def formatOctal.simps octalDigit_def)
  have first: "treeEntriesByHashIter_Next
        (TreeEntriesByHashIter [missingHash, exampleTreeHash] 0 (Some exampleRepository) None) =
     (Inr [''repo1'', exampleTreeHash, ''00000000000000000000000000000000000000e1'',
           ''100644'', ''README.md''],
      TreeEntriesByHashIter [missingHash, exampleTreeHash] 2 (Some exampleRepository)
        (Some (FileIter ''repo1'' exampleTree
        [Inr \<lparr>Name = ''bin/run'', Mode = 33261,
              Hash = ''00000000000000000000000000000000000000e2''\<rparr>])))"
    by (simp add: treeEntriesByHashIter_Next.simps missingHash_def unreadableHash_def exampleTreeHash_def brokenTreeHash_def
      exampleTree_def exampleRepository_def fileToRow_def octal)
  have second: "treeEntriesByHashIter_Next
     (((\<lambda>it. snd (treeEntriesByHashIter_Next it)) ^^ Suc 0)
        (TreeEntriesByHashIter [missingHash, exampleTreeHash] 0 (Some exampleRepository) None)) =
     (Inr [''repo1'', exampleTreeHash, ''00000000000000000000000000000000000000e2'',
           ''100755'', ''bin/run''],
      TreeEntriesByHashIter [missingHash, exampleTreeHash] 2 (Some exampleRepository)
        (Some (FileIter ''repo1'' exampleTree [])))"
    by (simp add: first) (simp add: treeEntriesByHashIter_Next.simps missingHash_def unreadableHash_def exampleTreeHash_def brokenTreeHash_def
      exampleTree_def exampleRepository_def fileToRow_def octal)
  have new': "treeEntryIter_NewIterator (TreeEntryIter None None []) exampleRepository =
     Inr (TreeEntryIter (Some [Inr exampleTree, Inr brokenTree]) None ''repo1'')"
    by (simp add: exampleRepository_def)
  have full: "treeEntryIter_Next
     (((\<lambda>it. snd (treeEntryIter_Next it)) ^^ 0)
        (TreeEntryIter (Some [Inr exampleTree, Inr brokenTree]) None ''repo1'')) =
     (Inr [''repo1'', exampleTreeHash, ''00000000000000000000000000000000000000e1'',
           ''100644'', ''README.md''],
      TreeEntryIter (Some [Inr brokenTree]) (Some (FileIter ''repo1'' exampleTree
        [Inr \<lparr>Name = ''bin/run'', Mode = 33261,
              Hash = ''00000000000000000000000000000000000000e2''\<rparr>])) ''repo1'')"
    by (simp add: treeEntryIter_Next.simps missingHash_def unreadableHash_def exampleTreeHash_def brokenTreeHash_def
      exampleTree_def exampleRepository_def fileToRow_def octal)
  have ex1: "\<exists>h \<in> set [missingHash, exampleTreeHash]. \<exists>t f.
      TreeObject exampleRepository h = Inr t \<and> Inr f \<in> set (Files t) \<and>
      [''repo1'', exampleTreeHash, ''00000000000000000000000000000000000000e2'',
       ''100755'', ''bin/run''] =
      [RepoID exampleRepository, ID t, Hash f, FormatInt8 (uint (Mode f)), Name f]"
    using fileToRow_shape [THEN conjunct2, THEN conjunct2, THEN conjunct2, THEN conjunct2,
        THEN conjunct1, THEN mp, OF conjI [OF new second]]
    by simp
  have ex2: "\<exists>trees t f.
      TreeObjects exampleRepository = Inr trees \<and> Inr t \<in> set trees \<and>
      Inr f \<in> set (Files t) \<and>
      [''repo1'', exampleTreeHash, ''00000000000000000000000000000000000000e1'',
       ''100644'', ''README.md''] =
      [RepoID exampleRepository, ID t, Hash f, FormatInt8 (uint (Mode f)), Name f]"
    using fileToRow_shape [THEN conjunct2, THEN conjunct2, THEN conjunct2, THEN conjunct2,
        THEN conjunct2, THEN mp, OF conjI [OF new' full]]
    by simp
  from new second ex1 new' full ex2 show ?thesis by blast
qed

end
